theory Spec2Isabelle
  imports Complex_Main
begin

section \<open>Python values\<close>

text \<open>
  The values that \<^verbatim>\<open>json.loads\<close> produces and \<^verbatim>\<open>json.dumps\<close> accepts: \<^verbatim>\<open>None\<close>, booleans,
  unbounded integers, strings, lists and dictionaries with string keys. A dictionary is an
  association list in insertion order. A \<^verbatim>\<open>str\<close> is the list of the bytes of its UTF-8
  encoding. Floating-point numbers are not part of the model.
\<close>

datatype pyval =
    PNone
  | PBool bool
  | PInt int
  | PStr string
  | PList "pyval list"
  | PDict "(string \<times> pyval) list"

text \<open>The exceptions (all subclasses of \<^verbatim>\<open>Exception\<close>) that the client or its collaborators raise.\<close>

datatype exn =
    KeyError pyval
  | IndexError
  | TypeError
  | AttributeError
  | ValueError
  | OSError
  | TransportError string
  | OracleError string
  | IPBlockError string
  | DataFetchError pyval
  | PyException string

text \<open>Truth value testing, as \<^verbatim>\<open>if x:\<close> and \<^verbatim>\<open>while x:\<close> do it.\<close>

fun truthy :: "pyval \<Rightarrow> bool" where
  "truthy PNone = False"
| "truthy (PBool b) = b"
| "truthy (PInt n) = (n \<noteq> 0)"
| "truthy (PStr s) = (s \<noteq> [])"
| "truthy (PList xs) = (xs \<noteq> [])"
| "truthy (PDict kvs) = (kvs \<noteq> [])"

text \<open>\<^verbatim>\<open>x == k\<close> for an integer constant \<^verbatim>\<open>k\<close>; \<^verbatim>\<open>True == 1\<close> and \<^verbatim>\<open>False == 0\<close> in Python.\<close>

fun py_eq_int :: "pyval \<Rightarrow> int \<Rightarrow> bool" where
  "py_eq_int (PInt n) k = (n = k)"
| "py_eq_int (PBool b) k = ((if b then 1 else 0) = k)"
| "py_eq_int _ k = False"

text \<open>Sequencing of computations that may raise.\<close>

definition bind_exn :: "exn + 'a \<Rightarrow> ('a \<Rightarrow> exn + 'b) \<Rightarrow> exn + 'b" where
  "bind_exn m f = (case m of Inl e \<Rightarrow> Inl e | Inr x \<Rightarrow> f x)"

text \<open>A \<^verbatim>\<open>str\<close> splits into its code points: a UTF-8 lead byte with its continuation bytes.\<close>

definition is_cont :: "char \<Rightarrow> bool" where
  "is_cont c = (128 \<le> (of_char c :: nat) \<and> (of_char c :: nat) < 192)"

function utf8_chars :: "string \<Rightarrow> string list" where
  "utf8_chars [] = []"
| "utf8_chars (c # cs) = (c # takeWhile is_cont cs) # utf8_chars (dropWhile is_cont cs)"
  by pat_completeness auto
termination
  by (relation "measure length") (auto simp: length_dropWhile_le le_imp_less_Suc)

text \<open>\<^verbatim>\<open>xs[i]\<close> on a list, with Python's negative indices.\<close>

definition list_index :: "'a list \<Rightarrow> int \<Rightarrow> exn + 'a" where
  "list_index xs i =
     (if 0 \<le> i \<and> i < int (length xs) then Inr (xs ! nat i)
      else if i < 0 \<and> - int (length xs) \<le> i then Inr (xs ! nat (int (length xs) + i))
      else Inl IndexError)"

text \<open>\<^verbatim>\<open>x[k]\<close>: subscription of a decoded value by a string or an integer.\<close>

fun getitem :: "pyval \<Rightarrow> pyval \<Rightarrow> exn + pyval" where
  "getitem (PDict kvs) k =
     (case k of
        PStr s \<Rightarrow> (case map_of kvs s of None \<Rightarrow> Inl (KeyError k) | Some v \<Rightarrow> Inr v)
      | PList _ \<Rightarrow> Inl TypeError
      | PDict _ \<Rightarrow> Inl TypeError
      | _ \<Rightarrow> Inl (KeyError k))"
| "getitem (PList xs) k =
     (case k of
        PInt i \<Rightarrow> list_index xs i
      | PBool b \<Rightarrow> list_index xs (if b then 1 else 0)
      | _ \<Rightarrow> Inl TypeError)"
| "getitem (PStr s) k =
     (case k of
        PInt i \<Rightarrow> bind_exn (list_index (utf8_chars s) i) (\<lambda>c. Inr (PStr c))
      | PBool b \<Rightarrow> bind_exn (list_index (utf8_chars s) (if b then 1 else 0)) (\<lambda>c. Inr (PStr c))
      | _ \<Rightarrow> Inl TypeError)"
| "getitem _ k = Inl TypeError"

text \<open>\<^verbatim>\<open>x.get(key, default)\<close>: only a dictionary has the method.\<close>

fun dict_get :: "pyval \<Rightarrow> string \<Rightarrow> pyval \<Rightarrow> exn + pyval" where
  "dict_get (PDict kvs) k d = (case map_of kvs k of None \<Rightarrow> Inr d | Some v \<Rightarrow> Inr v)"
| "dict_get _ k d = Inl AttributeError"

text \<open>\<^verbatim>\<open>d[k] = v\<close> and \<^verbatim>\<open>d.update(e)\<close> on a dictionary in insertion order.\<close>

fun dict_set :: "('k \<times> 'v) list \<Rightarrow> 'k \<Rightarrow> 'v \<Rightarrow> ('k \<times> 'v) list" where
  "dict_set [] k v = [(k, v)]"
| "dict_set ((k', v') # kvs) k v = (if k' = k then (k, v) # kvs else (k', v') # dict_set kvs k v)"

definition dict_update :: "('k \<times> 'v) list \<Rightarrow> ('k \<times> 'v) list \<Rightarrow> ('k \<times> 'v) list" where
  "dict_update d e = fold (\<lambda>(k, v) acc. dict_set acc k v) e d"

text \<open>The items that \<^verbatim>\<open>list.extend(x)\<close> appends: iteration over \<^verbatim>\<open>x\<close>.\<close>

fun py_iter :: "pyval \<Rightarrow> exn + pyval list" where
  "py_iter (PList xs) = Inr xs"
| "py_iter (PStr s) = Inr (map PStr (utf8_chars s))"
| "py_iter (PDict kvs) = Inr (map (\<lambda>kv. PStr (fst kv)) kvs)"
| "py_iter _ = Inl TypeError"

section \<open>json.dumps with compact separators\<close>

definition digit_char :: "nat \<Rightarrow> char" where
  "digit_char d = ''0123456789'' ! d"

definition hex_char :: "nat \<Rightarrow> char" where
  "hex_char d = ''0123456789abcdef'' ! d"

fun digits_nat :: "nat \<Rightarrow> string" where
  "digits_nat n = (if n < 10 then [digit_char n] else digits_nat (n div 10) @ [digit_char (n mod 10)])"

declare digits_nat.simps [simp del]

text \<open>\<^verbatim>\<open>str(i)\<close> for an integer.\<close>

definition str_int :: "int \<Rightarrow> string" where
  "str_int i = (if i < 0 then CHR ''-'' # digits_nat (nat (- i)) else digits_nat (nat i))"

definition hex4 :: "nat \<Rightarrow> string" where
  "hex4 n = [hex_char (n div 4096 mod 16), hex_char (n div 256 mod 16),
             hex_char (n div 16 mod 16), hex_char (n mod 16)]"

definition u_escape :: "nat \<Rightarrow> string" where
  "u_escape n = [CHR 0x5C, CHR ''u''] @ hex4 n"

text \<open>
  The escapes of \<^verbatim>\<open>json.encoder.ESCAPE_DCT\<close>, used with \<^verbatim>\<open>ensure_ascii=False\<close>: the quote, the
  backslash and the control characters below 0x20; every other byte is copied.
\<close>

definition escape_char :: "char \<Rightarrow> string" where
  "escape_char c =
     (if c = CHR 0x22 then [CHR 0x5C, CHR 0x22]
      else if c = CHR 0x5C then [CHR 0x5C, CHR 0x5C]
      else if c = CHR 0x0A then [CHR 0x5C, CHR ''n'']
      else if c = CHR 0x0D then [CHR 0x5C, CHR ''r'']
      else if c = CHR 0x09 then [CHR 0x5C, CHR ''t'']
      else if c = CHR 0x08 then [CHR 0x5C, CHR ''b'']
      else if c = CHR 0x0C then [CHR 0x5C, CHR ''f'']
      else if (of_char c :: nat) < 32 then u_escape (of_char c)
      else [c])"

text \<open>The code point that a UTF-8 unit (lead byte and continuation bytes) encodes.\<close>

definition codepoint :: "string \<Rightarrow> nat" where
  "codepoint u =
     (case u of
        [] \<Rightarrow> 0
      | c # cs \<Rightarrow>
          fold (\<lambda>b acc. acc * 64 + (of_char b :: nat) mod 64) cs
            (if length cs = 0 then of_char c
             else if length cs = 1 then (of_char c :: nat) mod 32
             else if length cs = 2 then (of_char c :: nat) mod 16
             else (of_char c :: nat) mod 8))"

text \<open>
  With \<^verbatim>\<open>ensure_ascii=True\<close> (the default) every code point outside \<^verbatim>\<open>' '..'~'\<close> is escaped
  too, above the basic plane as a surrogate pair.
\<close>

definition escape_unit_ascii :: "string \<Rightarrow> string" where
  "escape_unit_ascii u =
     (let n = codepoint u in
      if n < 127 then concat (map escape_char u)
      else if n < 65536 then u_escape n
      else u_escape (55296 + (n - 65536) div 1024 mod 1024) @ u_escape (56320 + (n - 65536) mod 1024))"

definition encode_basestring :: "bool \<Rightarrow> string \<Rightarrow> string" where
  "encode_basestring ensure_ascii s =
     [CHR 0x22] @
     (if ensure_ascii then concat (map escape_unit_ascii (utf8_chars s))
      else concat (map escape_char s)) @
     [CHR 0x22]"

text \<open>
  \<^verbatim>\<open>json.dumps(v, separators=(',', ':'), ensure_ascii=...)\<close>: no whitespace, items separated by
  a comma, key and value by a colon.
\<close>

fun json_dumps :: "bool \<Rightarrow> pyval \<Rightarrow> string"
  and dumps_items :: "bool \<Rightarrow> pyval list \<Rightarrow> string"
  and dumps_members :: "bool \<Rightarrow> (string \<times> pyval) list \<Rightarrow> string" where
  "json_dumps ea PNone = ''null''"
| "json_dumps ea (PBool b) = (if b then ''true'' else ''false'')"
| "json_dumps ea (PInt n) = str_int n"
| "json_dumps ea (PStr s) = encode_basestring ea s"
| "json_dumps ea (PList xs) = ''['' @ dumps_items ea xs @ '']''"
| "json_dumps ea (PDict kvs) = ''{'' @ dumps_members ea kvs @ ''}''"
| "dumps_items ea [] = []"
| "dumps_items ea [x] = json_dumps ea x"
| "dumps_items ea (x # y # ys) = json_dumps ea x @ '','' @ dumps_items ea (y # ys)"
| "dumps_members ea [] = []"
| "dumps_members ea [(k, v)] = encode_basestring ea k @ '':'' @ json_dumps ea v"
| "dumps_members ea ((k, v) # kv # kvs) =
     encode_basestring ea k @ '':'' @ json_dumps ea v @ '','' @ dumps_members ea (kv # kvs)"

section \<open>The environment of the client\<close>

text \<open>
  What \<^verbatim>\<open>httpx\<close> hands back: the body as text, and the result of \<^verbatim>\<open>response.json()\<close>
  (\<open>None\<close> when it raises \<^verbatim>\<open>JSONDecodeError\<close>).
\<close>

record response =
  status_code :: int
  resp_text :: string
  resp_json :: "pyval option"

text \<open>\<^verbatim>\<open>request\<close> returns either the raw response object or a decoded value.\<close>

datatype retval = Resp response | Val pyval

text \<open>
  A URI is a path together with the parameter dictionary that \<^verbatim>\<open>urlencode\<close> renders after
  the question mark (\<open>None\<close>: no query string).
\<close>

datatype uri = Uri string "(string \<times> pyval) list option"

datatype body = NoBody | StrBody string | FileBody string

type_synonym headers = "(string \<times> pyval) list"

text \<open>The effects of the client, in the order in which they happen.\<close>

datatype event =
    Sign uri "pyval option"
  | Http string uri headers body
  | Sleep real
  | Callback string pyval
  | Print pyval

text \<open>The four values that \<^verbatim>\<open>help.sign\<close> computes from the page's signing function.\<close>

record signs =
  x_s :: string
  x_t :: string
  x_s_common :: string
  x_b3_traceid :: string

text \<open>
  The world holds the session headers of the client, the trace of its effects, and the
  collaborators as oracles: \<open>sign_oracle w n\<close> is what the \<open>n\<close>-th signing (the two page
  evaluations and \<^verbatim>\<open>help.sign\<close>) yields, \<open>http_oracle w n\<close> what the transport answers to the
  \<open>n\<close>-th request, \<open>search_id_oracle w n\<close> the \<open>n\<close>-th result of \<^verbatim>\<open>help.get_search_id\<close>;
  \<open>getsize\<close> and \<open>fopen\<close> are the file system, \<open>local_timestamp s\<close> is
  \<^verbatim>\<open>int(datetime.strptime(s, "%Y-%m-%d %H:%M:%S").timestamp())\<close> in the local time zone.
\<close>

record world =
  headers :: headers
  trace :: "event list"
  sign_oracle :: "nat \<Rightarrow> exn + signs"
  sign_n :: nat
  http_oracle :: "nat \<Rightarrow> exn + response"
  http_n :: nat
  search_id_oracle :: "nat \<Rightarrow> string"
  search_n :: nat
  getsize :: "string \<Rightarrow> exn + nat"
  fopen :: "string \<Rightarrow> exn option"
  local_timestamp :: "string \<Rightarrow> exn + int"

section \<open>XHSClient\<close>

definition host :: string where
  "host = ''https://edith.xiaohongshu.com''"

definition IP_ERROR_STR :: string where
  "IP_ERROR_STR =
     [CHR 0xE7, CHR 0xBD, CHR 0x91, CHR 0xE7, CHR 0xBB, CHR 0x9C, CHR 0xE8, CHR 0xBF, CHR 0x9E,
      CHR 0xE6, CHR 0x8E, CHR 0xA5, CHR 0xE5, CHR 0xBC, CHR 0x82, CHR 0xE5, CHR 0xB8, CHR 0xB8,
      CHR 0xEF, CHR 0xBC, CHR 0x8C, CHR 0xE8, CHR 0xAF, CHR 0xB7, CHR 0xE6, CHR 0xA3, CHR 0x80,
      CHR 0xE6, CHR 0x9F, CHR 0xA5, CHR 0xE7, CHR 0xBD, CHR 0x91, CHR 0xE7, CHR 0xBB, CHR 0x9C,
      CHR 0xE8, CHR 0xAE, CHR 0xBE, CHR 0xE7, CHR 0xBD, CHR 0xAE, CHR 0xE6, CHR 0x88, CHR 0x96,
      CHR 0xE9, CHR 0x87, CHR 0x8D, CHR 0xE5, CHR 0x90, CHR 0xAF, CHR 0xE8, CHR 0xAF, CHR 0x95,
      CHR 0xE8, CHR 0xAF, CHR 0x95]"

definition IP_ERROR_CODE :: int where
  "IP_ERROR_CODE = 300012"

text \<open>
  \<^verbatim>\<open>_pre_headers\<close>: sign the request and merge the four signature headers into the session
  headers, which are returned.
\<close>

definition pre_headers :: "uri \<Rightarrow> pyval option \<Rightarrow> world \<Rightarrow> (exn + headers) \<times> world" where
  "pre_headers url data w =
     (let w1 = w\<lparr>trace := trace w @ [Sign url data], sign_n := Suc (sign_n w)\<rparr> in
      case sign_oracle w (sign_n w) of
        Inl e \<Rightarrow> (Inl e, w1)
      | Inr sg \<Rightarrow>
          (let hs = dict_update (headers w1)
                      [(''X-S'', PStr (x_s sg)), (''X-T'', PStr (x_t sg)),
                       (''x-S-Common'', PStr (x_s_common sg)),
                       (''X-B3-Traceid'', PStr (x_b3_traceid sg))]
           in (Inr hs, w1\<lparr>headers := hs\<rparr>)))"

text \<open>
  The part of \<^verbatim>\<open>request\<close> that follows the transport call: an empty or undecodable body
  returns the response itself, a decoded envelope is classified by \<^verbatim>\<open>data["success"]\<close> and
  \<^verbatim>\<open>data["code"]\<close>.
\<close>

definition handle_response :: "response \<Rightarrow> exn + retval" where
  "handle_response response =
     (if length (resp_text response) = 0 then Inr (Resp response)
      else
        (case resp_json response of
           None \<Rightarrow> Inr (Resp response)
         | Some data \<Rightarrow>
             bind_exn (getitem data (PStr ''success'')) (\<lambda>success.
               if truthy success then
                 bind_exn (dict_get data ''success'' (PDict [])) (\<lambda>dflt.
                 bind_exn (dict_get data ''data'' dflt) (\<lambda>v. Inr (Val v)))
               else
                 bind_exn (getitem data (PStr ''code'')) (\<lambda>code.
                   if py_eq_int code IP_ERROR_CODE then Inl (IPBlockError IP_ERROR_STR)
                   else bind_exn (dict_get data ''msg'' PNone) (\<lambda>msg.
                          Inl (DataFetchError msg))))))"

text \<open>\<^verbatim>\<open>request\<close>: exactly one HTTP request; a transport failure propagates.\<close>

definition request :: "string \<Rightarrow> uri \<Rightarrow> body \<Rightarrow> headers \<Rightarrow> world \<Rightarrow> (exn + retval) \<times> world" where
  "request method url data hdrs w =
     (let w1 = w\<lparr>trace := trace w @ [Http method url hdrs data], http_n := Suc (http_n w)\<rparr> in
      case http_oracle w (http_n w) of
        Inl e \<Rightarrow> (Inl e, w1)
      | Inr response \<Rightarrow> (handle_response response, w1))"

text \<open>\<^verbatim>\<open>get\<close>: sign the URI with its query string, then request it on the API host.\<close>

definition get :: "string \<Rightarrow> (string \<times> pyval) list option \<Rightarrow> world \<Rightarrow> (exn + retval) \<times> world" where
  "get uri params w =
     (case pre_headers (Uri uri params) None w of
        (Inl e, w1) \<Rightarrow> (Inl e, w1)
      | (Inr hs, w1) \<Rightarrow> request ''GET'' (Uri (host @ uri) params) NoBody hs w1)"

text \<open>\<^verbatim>\<open>post\<close>: sign the URI and the body, serialise the body compactly without escaping non-ASCII.\<close>

definition post :: "string \<Rightarrow> pyval \<Rightarrow> world \<Rightarrow> (exn + retval) \<times> world" where
  "post uri data w =
     (case pre_headers (Uri uri None) (Some data) w of
        (Inl e, w1) \<Rightarrow> (Inl e, w1)
      | (Inr hs, w1) \<Rightarrow>
          (let json_str = json_dumps False data
           in request ''POST'' (Uri (host @ uri) None) (StrBody json_str) hs w1))"

text \<open>Subscription and \<^verbatim>\<open>.get\<close> on what \<^verbatim>\<open>request\<close> returned; a response object has neither.\<close>

fun retval_getitem :: "retval \<Rightarrow> pyval \<Rightarrow> exn + pyval" where
  "retval_getitem (Val v) k = getitem v k"
| "retval_getitem (Resp r) k = Inl TypeError"

fun retval_get :: "retval \<Rightarrow> string \<Rightarrow> pyval \<Rightarrow> exn + pyval" where
  "retval_get (Val v) k d = dict_get v k d"
| "retval_get (Resp r) k d = Inl AttributeError"

text \<open>
  \<^verbatim>\<open>get_note_by_keyword\<close>; \<open>sort_value\<close> and \<open>note_type\<close> are the \<^verbatim>\<open>.value\<close> of the enumerations of
  \<^verbatim>\<open>field.py\<close>.
\<close>

definition get_note_by_keyword ::
  "string \<Rightarrow> int \<Rightarrow> int \<Rightarrow> pyval \<Rightarrow> pyval \<Rightarrow> world \<Rightarrow> (exn + retval) \<times> world" where
  "get_note_by_keyword keyword page page_size sort_value note_type w =
     (let w1 = w\<lparr>search_n := Suc (search_n w)\<rparr>;
          data = PDict [(''keyword'', PStr keyword), (''page'', PInt page),
                        (''page_size'', PInt page_size),
                        (''search_id'', PStr (search_id_oracle w (search_n w))),
                        (''sort'', sort_value), (''note_type'', note_type)]
      in post ''/api/sns/web/v1/search/notes'' data w1)"

definition pong_keyword :: string where
  "pong_keyword = [CHR 0xE5, CHR 0xB0, CHR 0x8F, CHR 0xE7, CHR 0xBA, CHR 0xA2, CHR 0xE4, CHR 0xB9, CHR 0xA6]"

text \<open>
  \<^verbatim>\<open>pong\<close>: the \<^verbatim>\<open>try\<close> body is the inner computation; \<^verbatim>\<open>except Exception\<close> turns whatever it
  raises into \<^verbatim>\<open>ping_flag = False\<close>. \<open>sort_general\<close> and \<open>note_all\<close> are the default sort order and note
  type of \<^verbatim>\<open>get_note_by_keyword\<close>.
\<close>

definition pong :: "pyval \<Rightarrow> pyval \<Rightarrow> world \<Rightarrow> (exn + bool) \<times> world" where
  "pong sort_general note_all w =
     (let ping_flag = False in
      case (case get_note_by_keyword pong_keyword 1 20 sort_general note_all w of
              (Inl e, w1) \<Rightarrow> (Inl e, w1)
            | (Inr note_card, w1) \<Rightarrow>
                (bind_exn (retval_get note_card ''items'' PNone) (\<lambda>items.
                   Inr (if truthy items then True else ping_flag)), w1)) of
        (Inl e, w1) \<Rightarrow> (Inr False, w1)
      | (Inr flag, w1) \<Rightarrow> (Inr flag, w1))"

definition get_note_comments :: "string \<Rightarrow> pyval \<Rightarrow> world \<Rightarrow> (exn + retval) \<times> world" where
  "get_note_comments note_id cursor w =
     get ''/api/sns/web/v2/comment/page'' (Some [(''note_id'', PStr note_id), (''cursor'', cursor)]) w"

text \<open>\<^verbatim>\<open>if callback: await callback(note_id, comments)\<close>; the sink may raise.\<close>

definition run_callback ::
  "(string \<Rightarrow> pyval \<Rightarrow> exn option) option \<Rightarrow> string \<Rightarrow> pyval \<Rightarrow> world \<Rightarrow> exn option \<times> world" where
  "run_callback callback note_id comments w =
     (case callback of
        None \<Rightarrow> (None, w)
      | Some cb \<Rightarrow> (cb note_id comments, w\<lparr>trace := trace w @ [Callback note_id comments]\<rparr>))"

text \<open>
  The \<^verbatim>\<open>while comments_has_more\<close> loop of \<^verbatim>\<open>get_note_all_comments\<close>. The two \<^verbatim>\<open>.get\<close> calls
  raise \<^verbatim>\<open>AttributeError\<close> unless the page is a dictionary; a dictionary without the key
  \<^verbatim>\<open>comments\<close> breaks out of the loop. A loop that never ends has the value \<open>None\<close>.
\<close>

partial_function (option) comments_loop ::
  "string \<Rightarrow> real \<Rightarrow> (string \<Rightarrow> pyval \<Rightarrow> exn option) option \<Rightarrow> pyval \<Rightarrow> pyval \<Rightarrow> pyval list \<Rightarrow> world
     \<Rightarrow> ((exn + pyval list) \<times> world) option" where
  "comments_loop note_id crawl_interval callback comments_has_more comments_cursor result w =
     (if truthy comments_has_more then
        (case get_note_comments note_id comments_cursor w of
           (Inl e, w1) \<Rightarrow> Some (Inl e, w1)
         | (Inr (Resp r), w1) \<Rightarrow> Some (Inl AttributeError, w1)
         | (Inr (Val comments_res), w1) \<Rightarrow>
             (case comments_res of
                PDict page \<Rightarrow>
                  (case map_of page ''comments'' of
                     None \<Rightarrow> Some (Inr result, w1)
                   | Some comments \<Rightarrow>
                       (case run_callback callback note_id comments w1 of
                          (Some e, w2) \<Rightarrow> Some (Inl e, w2)
                        | (None, w2) \<Rightarrow>
                            (case py_iter comments of
                               Inl e \<Rightarrow> Some (Inl e, w2\<lparr>trace := trace w2 @ [Sleep crawl_interval]\<rparr>)
                             | Inr items \<Rightarrow>
                                 comments_loop note_id crawl_interval callback
                                   (case map_of page ''has_more'' of None \<Rightarrow> PBool False | Some v \<Rightarrow> v)
                                   (case map_of page ''cursor'' of None \<Rightarrow> PStr [] | Some v \<Rightarrow> v)
                                   (result @ items)
                                   (w2\<lparr>trace := trace w2 @ [Sleep crawl_interval]\<rparr>))))
              | _ \<Rightarrow> Some (Inl AttributeError, w1)))
      else Some (Inr result, w))"

definition get_note_all_comments ::
  "string \<Rightarrow> real \<Rightarrow> (string \<Rightarrow> pyval \<Rightarrow> exn option) option \<Rightarrow> world
     \<Rightarrow> ((exn + pyval list) \<times> world) option" where
  "get_note_all_comments note_id crawl_interval callback w =
     comments_loop note_id crawl_interval callback (PBool True) (PStr []) [] w"

text \<open>
  \<^verbatim>\<open>get_upload_files_permit\<close>: the first file id and the token of the first permit block.
\<close>

definition get_upload_files_permit :: "string \<Rightarrow> int \<Rightarrow> world \<Rightarrow> (exn + pyval \<times> pyval) \<times> world" where
  "get_upload_files_permit file_type count w =
     (case get ''/api/media/v1/upload/web/permit''
             (Some [(''biz_name'', PStr ''spectrum''), (''scene'', PStr file_type),
                    (''file_count'', PInt count), (''version'', PStr ''1''),
                    (''source'', PStr ''web'')]) w of
        (Inl e, w1) \<Rightarrow> (Inl e, w1)
      | (Inr res, w1) \<Rightarrow>
          (bind_exn (retval_getitem res (PStr ''uploadTempPermits'')) (\<lambda>permits.
           bind_exn (getitem permits (PInt 0)) (\<lambda>temp_permit.
           bind_exn (getitem temp_permit (PStr ''fileIds'')) (\<lambda>file_ids.
           bind_exn (getitem file_ids (PInt 0)) (\<lambda>file_id.
           bind_exn (getitem temp_permit (PStr ''token'')) (\<lambda>token.
             Inr (file_id, token)))))),
           w1))"

definition max_file_size :: nat where
  "max_file_size = 5 * 1024 * 1024"

text \<open>
  \<^verbatim>\<open>upload_file\<close>: the URL is built first (\<^verbatim>\<open>str + file_id\<close> raises \<^verbatim>\<open>TypeError\<close> unless
  \<open>file_id\<close> is a string), then the size is read and checked, then the file is opened and sent
  by \<^verbatim>\<open>request\<close> itself, without \<^verbatim>\<open>_pre_headers\<close>.
\<close>

definition upload_file :: "pyval \<Rightarrow> pyval \<Rightarrow> string \<Rightarrow> string \<Rightarrow> world \<Rightarrow> (exn + retval) \<times> world" where
  "upload_file file_id token file_path content_type w =
     (case file_id of
        PStr fid \<Rightarrow>
          (let url = Uri (''https://ros-upload.xiaohongshu.com/'' @ fid) None in
           case getsize w file_path of
             Inl e \<Rightarrow> (Inl e, w)
           | Inr sz \<Rightarrow>
               if sz > max_file_size \<and> content_type = ''video/mp4''
               then (Inl (PyException ''video too large, < 5M''), w)
               else
                 (let hdrs = [(''X-Cos-Security-Token'', token), (''Content-Type'', PStr content_type)] in
                  case fopen w file_path of
                    Some e \<Rightarrow> (Inl e, w)
                  | None \<Rightarrow> request ''PUT'' url (FileBody file_path) hdrs w))
      | _ \<Rightarrow> (Inl TypeError, w))"

text \<open>The dictionary \<^verbatim>\<open>business_binds\<close> of \<^verbatim>\<open>create_note\<close>, for the converted \<open>post_time\<close>.\<close>

definition business_binds :: "pyval \<Rightarrow> pyval" where
  "business_binds post_time =
     PDict [(''version'', PInt 1),
            (''noteId'', PInt 0),
            (''noteOrderBind'', PDict []),
            (''notePostTiming'', PDict [(''postTime'', post_time)]),
            (''noteCollectionBind'', PDict [(''id'', PStr [])])]"

definition note_source :: string where
  "note_source = ''{\"type\":\"web\",\"ids\":\"\",\"extraInfo\":\"{'' @ [CHR 0x5C] @ ''\"subType'' @ [CHR 0x5C]
     @ ''\":'' @ [CHR 0x5C] @ ''\"official'' @ [CHR 0x5C] @ ''\"}\"}''"

text \<open>
  The body \<^verbatim>\<open>data\<close> of \<^verbatim>\<open>create_note\<close>: \<^verbatim>\<open>business_binds\<close> is serialised (with the default
  \<^verbatim>\<open>ensure_ascii=True\<close>) into a string field of the dictionary \<^verbatim>\<open>common\<close>.
\<close>

definition note_data ::
  "pyval \<Rightarrow> pyval \<Rightarrow> pyval \<Rightarrow> pyval \<Rightarrow> pyval \<Rightarrow> pyval \<Rightarrow> pyval \<Rightarrow> pyval \<Rightarrow> bool \<Rightarrow> pyval" where
  "note_data title desc note_type ats topics image_info video_info post_time is_private =
     PDict [(''common'',
             PDict [(''type'', note_type),
                    (''title'', title),
                    (''note_id'', PStr []),
                    (''desc'', desc),
                    (''source'', PStr note_source),
                    (''business_binds'', PStr (json_dumps True (business_binds post_time))),
                    (''ats'', ats),
                    (''hash_tag'', topics),
                    (''post_loc'', PDict []),
                    (''privacy_info'', PDict [(''op_type'', PInt 1),
                                             (''type'', PInt (if is_private then 1 else 0))])]),
            (''image_info'', image_info),
            (''video_info'', video_info)]"

text \<open>
  \<^verbatim>\<open>if post_time:\<close> converts a non-empty string to epoch milliseconds (\<^verbatim>\<open>strptime\<close> raises
  \<^verbatim>\<open>ValueError\<close> on another format); \<open>None\<close> and the empty string stay as they are.
\<close>

definition convert_post_time :: "world \<Rightarrow> string option \<Rightarrow> exn + pyval" where
  "convert_post_time w post_time =
     (case post_time of
        None \<Rightarrow> Inr PNone
      | Some s \<Rightarrow>
          if s \<noteq> [] then bind_exn (local_timestamp w s) (\<lambda>ts. Inr (PInt (ts * 1000)))
          else Inr (PStr s))"

definition create_note ::
  "pyval \<Rightarrow> pyval \<Rightarrow> pyval \<Rightarrow> pyval \<Rightarrow> pyval \<Rightarrow> pyval \<Rightarrow> pyval \<Rightarrow> string option \<Rightarrow> bool \<Rightarrow> world
     \<Rightarrow> (exn + retval) \<times> world" where
  "create_note title desc note_type ats topics image_info video_info post_time is_private w =
     (case convert_post_time w post_time of
        Inl e \<Rightarrow> (Inl e, w)
      | Inr post_time' \<Rightarrow>
          (let data = note_data title desc note_type ats topics image_info video_info post_time' is_private;
               w1 = w\<lparr>trace := trace w @ [Print data]\<rparr>
           in post ''/web_api/sns/v2/note'' data w1))"

definition image_descriptor :: "pyval \<Rightarrow> pyval" where
  "image_descriptor image_id =
     PDict [(''file_id'', image_id),
            (''metadata'', PDict [(''source'', PInt (- 1))]),
            (''stickers'', PDict [(''version'', PInt 2), (''floating'', PList [])]),
            (''extra_info_json'', PStr ''{\"mimeType\":\"image/jpeg\"}'')]"

text \<open>The \<^verbatim>\<open>for file in files\<close> loop of \<^verbatim>\<open>create_image_note\<close>: permit, transfer, append.\<close>

fun upload_images :: "string list \<Rightarrow> pyval list \<Rightarrow> world \<Rightarrow> (exn + pyval list) \<times> world" where
  "upload_images [] images w = (Inr images, w)"
| "upload_images (file # files) images w =
     (case get_upload_files_permit ''image'' 1 w of
        (Inl e, w1) \<Rightarrow> (Inl e, w1)
      | (Inr (image_id, token), w1) \<Rightarrow>
          (case upload_file image_id token file ''image/jpeg'' w1 of
             (Inl e, w2) \<Rightarrow> (Inl e, w2)
           | (Inr r, w2) \<Rightarrow> upload_images files (images @ [image_descriptor image_id]) w2))"

definition create_image_note ::
  "pyval \<Rightarrow> pyval \<Rightarrow> string list \<Rightarrow> string option \<Rightarrow> pyval option \<Rightarrow> pyval option \<Rightarrow> bool \<Rightarrow> world
     \<Rightarrow> (exn + retval) \<times> world" where
  "create_image_note title desc files post_time ats topics is_private w =
     (let ats' = (case ats of None \<Rightarrow> PList [] | Some a \<Rightarrow> a);
          topics' = (case topics of None \<Rightarrow> PList [] | Some t \<Rightarrow> t)
      in case upload_images files [] w of
           (Inl e, w1) \<Rightarrow> (Inl e, w1)
         | (Inr images, w1) \<Rightarrow>
             create_note title desc (PStr ''normal'') ats' topics' (PDict [(''images'', PList images)])
               PNone post_time is_private w1)"

section \<open>Observations\<close>

text \<open>The four outcomes of the specification, read off what \<^verbatim>\<open>request\<close> returns or raises.\<close>

datatype variant = Success | PlatformError | IPBlocked | RawHTTP

fun variant_of :: "exn + retval \<Rightarrow> variant option" where
  "variant_of (Inr (Val v)) = Some Success"
| "variant_of (Inr (Resp r)) = Some RawHTTP"
| "variant_of (Inl (DataFetchError m)) = Some PlatformError"
| "variant_of (Inl (IPBlockError m)) = Some IPBlocked"
| "variant_of (Inl e) = None"

text \<open>The calls of the sink, the sleeps and the HTTP requests of a trace, in order.\<close>

fun sink_calls :: "event list \<Rightarrow> (string \<times> pyval) list" where
  "sink_calls [] = []"
| "sink_calls (Callback n c # es) = (n, c) # sink_calls es"
| "sink_calls (e # es) = sink_calls es"

fun sleeps :: "event list \<Rightarrow> real list" where
  "sleeps [] = []"
| "sleeps (Sleep t # es) = t # sleeps es"
| "sleeps (e # es) = sleeps es"

fun requests :: "event list \<Rightarrow> (string \<times> uri) list" where
  "requests [] = []"
| "requests (Http m u h b # es) = (m, u) # requests es"
| "requests (e # es) = requests es"

fun signings :: "event list \<Rightarrow> uri list" where
  "signings [] = []"
| "signings (Sign u d # es) = u # signings es"
| "signings (e # es) = signings es"

text \<open>
  What the \<open>k\<close>-th fetch from now returns, when every fetch before it was signed: each fetch
  consumes one signing and one answer of the transport.
\<close>

definition page_at :: "world \<Rightarrow> nat \<Rightarrow> exn + retval" where
  "page_at w k =
     (case sign_oracle w (sign_n w + k) of
        Inl e \<Rightarrow> Inl e
      | Inr sg \<Rightarrow>
          (case http_oracle w (http_n w + k) of
             Inl e \<Rightarrow> Inl e
           | Inr response \<Rightarrow> handle_response response))"

text \<open>The items of a page, and whether the loop goes on after it.\<close>

definition page_items :: "(string \<times> pyval) list \<Rightarrow> pyval list" where
  "page_items page = (case map_of page ''comments'' of Some (PList xs) \<Rightarrow> xs | _ \<Rightarrow> [])"

definition page_has_more :: "(string \<times> pyval) list \<Rightarrow> bool" where
  "page_has_more page = (case map_of page ''has_more'' of None \<Rightarrow> False | Some v \<Rightarrow> truthy v)"

definition well_formed_page :: "(string \<times> pyval) list \<Rightarrow> bool" where
  "well_formed_page page = (case map_of page ''comments'' of Some (PList xs) \<Rightarrow> True | _ \<Rightarrow> False)"

text \<open>Worlds for the examples: a script answers the first requests, then a default.\<close>

definition script :: "'a list \<Rightarrow> 'a \<Rightarrow> nat \<Rightarrow> 'a" where
  "script xs d n = (if n < length xs then xs ! n else d)"

definition signs0 :: signs where
  "signs0 = \<lparr>x_s = ''XYW_s'', x_t = ''1700000000000'', x_s_common = ''common'', x_b3_traceid = ''trace''\<rparr>"

definition world0 :: world where
  "world0 =
     \<lparr>headers = [(''Cookie'', PStr ''a1=abc'')], trace = [],
      sign_oracle = (\<lambda>n. Inr signs0), sign_n = 0,
      http_oracle = (\<lambda>n. Inl (TransportError ''connection refused'')), http_n = 0,
      search_id_oracle = (\<lambda>n. ''2c7hu5b3kzoivkh848hp0''), search_n = 0,
      getsize = (\<lambda>p. Inl OSError), fopen = (\<lambda>p. Some OSError),
      local_timestamp = (\<lambda>s. Inl ValueError)\<rparr>"

text \<open>A response whose body decodes to the given envelope.\<close>

definition json_response :: "pyval \<Rightarrow> response" where
  "json_response data = \<lparr>status_code = 200, resp_text = json_dumps False data, resp_json = Some data\<rparr>"

definition ok_envelope :: "pyval \<Rightarrow> pyval" where
  "ok_envelope payload = PDict [(''code'', PInt 0), (''success'', PBool True), (''data'', payload)]"

text \<open>The URL of the comment page requested for a cursor.\<close>

definition comment_uri :: "string \<Rightarrow> pyval \<Rightarrow> uri" where
  "comment_uri note_id cursor =
     Uri (host @ ''/api/sns/web/v2/comment/page'') (Some [(''note_id'', PStr note_id), (''cursor'', cursor)])"

text \<open>A world whose transport answers every request with the same response.\<close>

definition world_answering :: "response \<Rightarrow> world" where
  "world_answering r = world0\<lparr>http_oracle := (\<lambda>n. Inr r)\<rparr>"

definition empty_response :: response where
  "empty_response = \<lparr>status_code = 204, resp_text = [], resp_json = None\<rparr>"

definition blocked_envelope :: pyval where
  "blocked_envelope = PDict [(''code'', PInt 300012), (''success'', PBool False), (''msg'', PStr ''blocked'')]"

definition selfinfo_uri :: uri where
  "selfinfo_uri = Uri (host @ ''/api/sns/web/v1/user/selfinfo'') None"

text \<open>The continuation flag and the cursor that the loop reads from a page.\<close>

definition has_more_val :: "(string \<times> pyval) list \<Rightarrow> pyval" where
  "has_more_val page = (case map_of page ''has_more'' of None \<Rightarrow> PBool False | Some v \<Rightarrow> v)"

definition cursor_val :: "(string \<times> pyval) list \<Rightarrow> pyval" where
  "cursor_val page = (case map_of page ''cursor'' of None \<Rightarrow> PStr [] | Some v \<Rightarrow> v)"

text \<open>\<open>advanced w w' k\<close>: \<open>w'\<close> is \<open>w\<close> after \<open>k\<close> signed requests, with the same oracles.\<close>

definition advanced :: "world \<Rightarrow> world \<Rightarrow> nat \<Rightarrow> bool" where
  "advanced w w' k \<longleftrightarrow>
     sign_oracle w' = sign_oracle w \<and> http_oracle w' = http_oracle w \<and>
     sign_n w' = sign_n w + k \<and> http_n w' = http_n w + k"

text \<open>The call of the sink for a page, if there is a sink, and that it does not raise.\<close>

definition sink_call ::
  "(string \<Rightarrow> pyval \<Rightarrow> exn option) option \<Rightarrow> string \<Rightarrow> pyval \<Rightarrow> (string \<times> pyval) list" where
  "sink_call cb n c = (case cb of None \<Rightarrow> [] | Some f \<Rightarrow> [(n, c)])"

definition sink_ok :: "(string \<Rightarrow> pyval \<Rightarrow> exn option) option \<Rightarrow> string \<Rightarrow> pyval \<Rightarrow> bool" where
  "sink_ok cb n c = (case cb of None \<Rightarrow> True | Some f \<Rightarrow> f n c = None)"

text \<open>\<open>serves w k ps\<close>: from the \<open>k\<close>-th fetch on, the fetches return the dictionaries \<open>ps\<close>.\<close>

fun serves :: "world \<Rightarrow> nat \<Rightarrow> (string \<times> pyval) list list \<Rightarrow> bool" where
  "serves w k [] = True"
| "serves w k (p # ps) = (page_at w k = Inr (Val (PDict p)) \<and> serves w (Suc k) ps)"

text \<open>A page after which the loop goes on: it has a list of items and a true \<^verbatim>\<open>has_more\<close>.\<close>

definition continuing :: "(string \<times> pyval) list \<Rightarrow> bool" where
  "continuing page = (well_formed_page page \<and> page_has_more page)"

definition quiet_sink :: "string \<Rightarrow> pyval \<Rightarrow> exn option" where
  "quiet_sink n c = None"

text \<open>A world whose transport answers the first requests with the given envelopes.\<close>

definition world_scripted :: "pyval list \<Rightarrow> world" where
  "world_scripted envelopes =
     world0\<lparr>http_oracle := script (map (\<lambda>e. Inr (json_response e)) envelopes)
                              (Inl (TransportError ''connection refused''))\<rparr>"

definition comment_page :: "pyval \<Rightarrow> bool \<Rightarrow> pyval list \<Rightarrow> (string \<times> pyval) list" where
  "comment_page cursor has_more comments =
     [(''cursor'', cursor), (''has_more'', PBool has_more), (''comments'', PList comments)]"

text \<open>What a crawl returned, and the calls of the sink and the sleeps it left in the trace.\<close>

definition result_of :: "('a \<times> world) option \<Rightarrow> 'a option" where
  "result_of r = map_option fst r"

definition sink_calls_of :: "('a \<times> world) option \<Rightarrow> (string \<times> pyval) list option" where
  "sink_calls_of r = map_option (\<lambda>x. sink_calls (trace (snd x))) r"

definition sleeps_of :: "('a \<times> world) option \<Rightarrow> real list option" where
  "sleeps_of r = map_option (\<lambda>x. sleeps (trace (snd x))) r"

definition requests_of :: "('a \<times> world) option \<Rightarrow> (string \<times> uri) list option" where
  "requests_of r = map_option (\<lambda>x. requests (trace (snd x))) r"

text \<open>An answer to the search of \<^verbatim>\<open>pong\<close> with one note.\<close>

definition search_envelope :: pyval where
  "search_envelope =
     ok_envelope (PDict [(''has_more'', PBool True), (''items'', PList [PDict [(''id'', PStr ''n1'')]])])"

text \<open>The HTTP methods of a trace, in order.\<close>

definition methods :: "event list \<Rightarrow> string list" where
  "methods evs = map fst (requests evs)"

definition upload_host :: string where
  "upload_host = ''https://ros-upload.xiaohongshu.com/''"

text \<open>A world with files of the given size that can be read.\<close>

definition world_with_files :: "nat \<Rightarrow> world \<Rightarrow> world" where
  "world_with_files sz w = w\<lparr>getsize := (\<lambda>p. Inr sz), fopen := (\<lambda>p. None)\<rparr>"

text \<open>A world whose transport answers the first requests with the given results.\<close>

definition world_replying :: "(exn + response) list \<Rightarrow> world" where
  "world_replying rs = world0\<lparr>http_oracle := script rs (Inl (TransportError ''connection refused''))\<rparr>"

definition permit_envelope :: "string \<Rightarrow> string \<Rightarrow> pyval" where
  "permit_envelope file_id token =
     ok_envelope (PDict [(''uploadTempPermits'',
                          PList [PDict [(''fileIds'', PList [PStr file_id]), (''token'', PStr token)]])])"

text \<open>Permit, transfer, permit, and a transfer that times out.\<close>

definition world_C7 :: world where
  "world_C7 = world_with_files 1000
     (world_replying [Inr (json_response (permit_envelope ''id1'' ''tok1'')), Inr empty_response,
                      Inr (json_response (permit_envelope ''id2'' ''tok2'')),
                      Inl (TransportError ''timeout'')])"

section \<open>Decoding JSON text\<close>

text \<open>
  The reader on the other side of the wire: a decoder of JSON text (RFC 8259), as
  \<^verbatim>\<open>json.loads\<close> reads it, for the values of \<open>pyval\<close>. White space is skipped around every
  token; a number is an optional minus sign and decimal digits without a leading zero (a
  fraction or an exponent would give a float, which \<open>pyval\<close> does not have: such a text is
  refused); a string is read up to the closing quote, with the two-character escapes and
  \<^verbatim>\<open>\uXXXX\<close>, whose code point is stored in UTF-8 (an escape in the surrogate range is
  refused), and a raw control character below 0x20 is an error; in an object the last of
  several equal keys wins. \<open>None\<close> is a decoding error.
\<close>

definition is_ws :: "char \<Rightarrow> bool" where
  "is_ws c = (c = CHR 0x20 \<or> c = CHR 0x09 \<or> c = CHR 0x0A \<or> c = CHR 0x0D)"

definition skip_ws :: "string \<Rightarrow> string" where
  "skip_ws s = dropWhile is_ws s"

definition is_digit :: "char \<Rightarrow> bool" where
  "is_digit c = (48 \<le> (of_char c :: nat) \<and> (of_char c :: nat) \<le> 57)"

definition digit_val :: "char \<Rightarrow> nat" where
  "digit_val c = of_char c - 48"

definition nat_of_digits :: "string \<Rightarrow> nat" where
  "nat_of_digits ds = foldl (\<lambda>a c. a * 10 + digit_val c) 0 ds"

definition hex_val :: "char \<Rightarrow> nat option" where
  "hex_val c =
     (if 48 \<le> (of_char c :: nat) \<and> (of_char c :: nat) \<le> 57 then Some (of_char c - 48)
      else if 97 \<le> (of_char c :: nat) \<and> (of_char c :: nat) \<le> 102 then Some (of_char c - 87)
      else if 65 \<le> (of_char c :: nat) \<and> (of_char c :: nat) \<le> 70 then Some (of_char c - 55)
      else None)"

definition hex4_val :: "char \<Rightarrow> char \<Rightarrow> char \<Rightarrow> char \<Rightarrow> nat option" where
  "hex4_val a b c d =
     (case (hex_val a, hex_val b, hex_val c, hex_val d) of
        (Some x, Some y, Some z, Some u) \<Rightarrow> Some (((x * 16 + y) * 16 + z) * 16 + u)
      | _ \<Rightarrow> None)"

definition utf8_encode :: "nat \<Rightarrow> string" where
  "utf8_encode n =
     (if n < 128 then [char_of n]
      else if n < 2048 then [char_of (192 + n div 64), char_of (128 + n mod 64)]
      else [char_of (224 + n div 4096), char_of (128 + n div 64 mod 64), char_of (128 + n mod 64)])"

definition unescape :: "char \<Rightarrow> char option" where
  "unescape e =
     (if e = CHR 0x22 then Some (CHR 0x22)
      else if e = CHR 0x5C then Some (CHR 0x5C)
      else if e = CHR ''/'' then Some (CHR ''/'')
      else if e = CHR ''b'' then Some (CHR 0x08)
      else if e = CHR ''f'' then Some (CHR 0x0C)
      else if e = CHR ''n'' then Some (CHR 0x0A)
      else if e = CHR ''r'' then Some (CHR 0x0D)
      else if e = CHR ''t'' then Some (CHR 0x09)
      else None)"

text \<open>\<open>parse_chars\<close> reads the rest of a string, after its opening quote.\<close>

definition prepend :: "string \<Rightarrow> (string \<times> string) option \<Rightarrow> (string \<times> string) option" where
  "prepend x r = (case r of None \<Rightarrow> None | Some (s, rest) \<Rightarrow> Some (x @ s, rest))"

fun parse_chars :: "string \<Rightarrow> (string \<times> string) option" where
  "parse_chars [] = None"
| "parse_chars (c # cs) =
     (if c = CHR 0x22 then Some ([], cs)
      else if c = CHR 0x5C then
        (case cs of
           [] \<Rightarrow> None
         | e # cs1 \<Rightarrow>
             if e = CHR ''u'' then
               (case cs1 of
                  h1 # h2 # h3 # h4 # cs2 \<Rightarrow>
                    (case hex4_val h1 h2 h3 h4 of
                       None \<Rightarrow> None
                     | Some n \<Rightarrow>
                         if 55296 \<le> n \<and> n < 57344 then None
                         else prepend (utf8_encode n) (parse_chars cs2))
                | _ \<Rightarrow> None)
             else (case unescape e of
                     None \<Rightarrow> None
                   | Some ch \<Rightarrow> prepend [ch] (parse_chars cs1)))
      else if (of_char c :: nat) < 32 then None
      else prepend [c] (parse_chars cs))"

text \<open>The literals \<^verbatim>\<open>null\<close>, \<^verbatim>\<open>true\<close>, \<^verbatim>\<open>false\<close> and the numbers.\<close>

definition match_prefix :: "string \<Rightarrow> string \<Rightarrow> string option" where
  "match_prefix p s = (if take (length p) s = p then Some (drop (length p) s) else None)"

definition parse_number :: "string \<Rightarrow> (pyval \<times> string) option" where
  "parse_number s =
     (let neg = (case s of [] \<Rightarrow> False | c # cs \<Rightarrow> c = CHR ''-'');
          t = (if neg then tl s else s);
          ds = takeWhile is_digit t;
          rest = dropWhile is_digit t
      in if ds = [] then None
         else if 1 < length ds \<and> hd ds = CHR ''0'' then None
         else if (case rest of [] \<Rightarrow> False | c # cs \<Rightarrow> c = CHR ''.'' \<or> c = CHR ''e'' \<or> c = CHR ''E'')
              then None
         else Some (PInt (if neg then - int (nat_of_digits ds) else int (nat_of_digits ds)), rest))"

text \<open>
  Values, the elements of an array after its bracket and the members of an object after its
  brace. The first argument bounds the depth of the recursion; a text never needs more of it
  than it has characters.
\<close>

fun parse_value :: "nat \<Rightarrow> string \<Rightarrow> (pyval \<times> string) option"
  and parse_elements :: "nat \<Rightarrow> string \<Rightarrow> (pyval list \<times> string) option"
  and parse_members :: "nat \<Rightarrow> string \<Rightarrow> ((string \<times> pyval) list \<times> string) option" where
  "parse_value 0 s = None"
| "parse_value (Suc n) s =
     (case skip_ws s of
        [] \<Rightarrow> None
      | c # cs \<Rightarrow>
          if c = CHR ''n'' then map_option (Pair PNone) (match_prefix ''ull'' cs)
          else if c = CHR ''t'' then map_option (Pair (PBool True)) (match_prefix ''rue'' cs)
          else if c = CHR ''f'' then map_option (Pair (PBool False)) (match_prefix ''alse'' cs)
          else if c = CHR 0x22 then map_option (apfst PStr) (parse_chars cs)
          else if c = CHR ''['' then
            (case skip_ws cs of
               [] \<Rightarrow> None
             | d # ds \<Rightarrow>
                 if d = CHR '']'' then Some (PList [], ds)
                 else map_option (apfst PList) (parse_elements n (d # ds)))
          else if c = CHR ''{'' then
            (case skip_ws cs of
               [] \<Rightarrow> None
             | d # ds \<Rightarrow>
                 if d = CHR ''}'' then Some (PDict [], ds)
                 else map_option (apfst (\<lambda>kvs. PDict (dict_update [] kvs))) (parse_members n (d # ds)))
          else parse_number (c # cs))"
| "parse_elements 0 s = None"
| "parse_elements (Suc n) s =
     (case parse_value n s of
        None \<Rightarrow> None
      | Some (v, r) \<Rightarrow>
          (case skip_ws r of
             [] \<Rightarrow> None
           | c # cs \<Rightarrow>
               if c = CHR '','' then map_option (apfst ((#) v)) (parse_elements n cs)
               else if c = CHR '']'' then Some ([v], cs)
               else None))"
| "parse_members 0 s = None"
| "parse_members (Suc n) s =
     (case skip_ws s of
        [] \<Rightarrow> None
      | q # s1 \<Rightarrow>
          if q \<noteq> CHR 0x22 then None
          else
            (case parse_chars s1 of
               None \<Rightarrow> None
             | Some (k, s2) \<Rightarrow>
                 (case skip_ws s2 of
                    [] \<Rightarrow> None
                  | c # s3 \<Rightarrow>
                      if c \<noteq> CHR '':'' then None
                      else
                        (case parse_value n s3 of
                           None \<Rightarrow> None
                         | Some (v, r) \<Rightarrow>
                             (case skip_ws r of
                                [] \<Rightarrow> None
                              | d # ds \<Rightarrow>
                                  if d = CHR '','' then map_option (apfst ((#) (k, v))) (parse_members n ds)
                                  else if d = CHR ''}'' then Some ([(k, v)], ds)
                                  else None)))))"

text \<open>A whole text is one value, followed by white space only.\<close>

definition json_loads :: "string \<Rightarrow> pyval option" where
  "json_loads s =
     (case parse_value (Suc (length s)) s of
        None \<Rightarrow> None
      | Some (v, r) \<Rightarrow> if skip_ws r = [] then Some v else None)"

text \<open>
  A Python dictionary holds each key once: the association lists of a value that stands for
  a Python object have distinct keys, at every level.
\<close>

fun distinct_keys :: "pyval \<Rightarrow> bool" where
  "distinct_keys (PList xs) = (\<forall>x \<in> set xs. distinct_keys x)"
| "distinct_keys (PDict kvs) = (distinct (map fst kvs) \<and> (\<forall>kv \<in> set kvs. distinct_keys (snd kv)))"
| "distinct_keys v = True"

text \<open>
  What the receiver of a publish request does with its body: decode it, take the entry
  \<^verbatim>\<open>business_binds\<close> of the dictionary \<^verbatim>\<open>common\<close>, which must be a string, and decode that
  string.
\<close>

definition decode_business_binds :: "string \<Rightarrow> pyval option" where
  "decode_business_binds body =
     (case json_loads body of
        None \<Rightarrow> None
      | Some outer \<Rightarrow>
          (case bind_exn (getitem outer (PStr ''common''))
                  (\<lambda>common. getitem common (PStr ''business_binds'')) of
             Inr (PStr s) \<Rightarrow> json_loads s
           | _ \<Rightarrow> None))"

text \<open>What follows a value inside a text: nothing, a comma or a closing bracket.\<close>

definition delimited :: "string \<Rightarrow> bool" where
  "delimited r = (case r of [] \<Rightarrow> True | c # cs \<Rightarrow> c = CHR '','' \<or> c = CHR '']'' \<or> c = CHR ''}'')"

text \<open>The body of the last event of a trace, when that event is a request with a text body.\<close>

definition last_payload :: "event list \<Rightarrow> string option" where
  "last_payload evs =
     (case rev evs of
        Http m u h (StrBody s) # _ \<Rightarrow> Some s
      | _ \<Rightarrow> None)"

text \<open>A world whose clock converts every date to the given epoch second.\<close>

definition world_clock :: "int \<Rightarrow> world" where
  "world_clock ts = world0\<lparr>local_timestamp := (\<lambda>s. Inr ts)\<rparr>"

text \<open>A world with files of 6 MiB whose first request is answered by a permit, and the world after that permit.\<close>

definition world_C6 :: world where
  "world_C6 = world_with_files (6 * 1024 * 1024)
     (world_replying [Inr (json_response (permit_envelope ''id1'' ''tok1''))])"

definition world_C6_permit :: world where
  "world_C6_permit = snd (get_upload_files_permit ''video'' 1 world_C6)"

section \<open>Classification of responses\<close>

lemma request_fst:
  "http_oracle w (http_n w) = Inr response \<Longrightarrow> fst (request m u b h w) = handle_response response"
  by (simp add: request_def Let_def)

text \<open>
  C1, as stated, fails: a decoded envelope without the key \<^verbatim>\<open>success\<close> is not classified
  into one of the four outcomes; \<^verbatim>\<open>data["success"]\<close> raises \<^verbatim>\<open>KeyError\<close>. Here the body is
  the JSON object \<^verbatim>\<open>{}\<close>.
\<close>

theorem C1_counterexample:
  "fst (request ''GET'' selfinfo_uri NoBody [] (world_answering (json_response (PDict []))))
   = Inl (KeyError (PStr ''success''))"
  by (simp add: request_def Let_def world_answering_def world0_def json_response_def
                handle_response_def bind_exn_def)

text \<open>
  C1, amended: an empty or undecodable body returns the raw response; an envelope that is a
  JSON object with a \<^verbatim>\<open>success\<close> entry (and a \<^verbatim>\<open>code\<close> entry when \<^verbatim>\<open>success\<close> is false) is
  classified as Success, IPBlocked or PlatformError, and the outcome depends only on the
  truth value of \<^verbatim>\<open>success\<close> and on whether \<^verbatim>\<open>code\<close> equals 300012; an object without the key
  \<^verbatim>\<open>success\<close> raises \<^verbatim>\<open>KeyError\<close>.
\<close>

theorem C1_request_classification:
  assumes "http_oracle w (http_n w) = Inr response"
  shows "(resp_text response = [] \<or> resp_json response = None
            \<longrightarrow> fst (request meth url data hdrs w) = Inr (Resp response))
       \<and> (resp_text response \<noteq> [] \<and> resp_json response = Some (PDict d)
            \<and> map_of d ''success'' = Some s \<and> (truthy s \<or> map_of d ''code'' = Some c)
            \<longrightarrow> variant_of (fst (request meth url data hdrs w))
                  = Some (if truthy s then Success
                          else if py_eq_int c IP_ERROR_CODE then IPBlocked else PlatformError))
       \<and> (resp_text response \<noteq> [] \<and> resp_json response = Some (PDict d)
            \<and> map_of d ''success'' = None
            \<longrightarrow> fst (request meth url data hdrs w) = Inl (KeyError (PStr ''success'')))"
  using assms
  by (auto simp: request_def Let_def handle_response_def bind_exn_def split: option.splits)

theorem C1_request_classification_witness:
  "http_oracle (world_answering empty_response) (http_n (world_answering empty_response))
     = Inr empty_response
   \<and> resp_text empty_response = []
   \<and> fst (request ''GET'' selfinfo_uri NoBody [] (world_answering empty_response))
     = Inr (Resp empty_response)
   \<and> http_oracle (world_answering (json_response blocked_envelope))
       (http_n (world_answering (json_response blocked_envelope)))
     = Inr (json_response blocked_envelope)
   \<and> resp_text (json_response blocked_envelope) \<noteq> []
   \<and> resp_json (json_response blocked_envelope)
     = Some (PDict [(''code'', PInt 300012), (''success'', PBool False), (''msg'', PStr ''blocked'')])
   \<and> variant_of (fst (request ''GET'' selfinfo_uri NoBody []
                       (world_answering (json_response blocked_envelope))))
     = Some IPBlocked
   \<and> fst (request ''GET'' selfinfo_uri NoBody [] (world_answering (json_response (PDict []))))
     = Inl (KeyError (PStr ''success''))"
proof -
  have h1: "http_oracle (world_answering empty_response) (http_n (world_answering empty_response))
            = Inr empty_response"
    by (simp add: world_answering_def)
  have h2: "http_oracle (world_answering (json_response blocked_envelope))
              (http_n (world_answering (json_response blocked_envelope)))
            = Inr (json_response blocked_envelope)"
    by (simp add: world_answering_def)
  have h3: "http_oracle (world_answering (json_response (PDict [])))
              (http_n (world_answering (json_response (PDict []))))
            = Inr (json_response (PDict []))"
    by (simp add: world_answering_def)
  have t: "resp_text (json_response blocked_envelope) \<noteq> []"
    by (simp add: json_response_def blocked_envelope_def encode_basestring_def)
  have t3: "resp_text (json_response (PDict [])) \<noteq> []"
    by (simp add: json_response_def)
  have j: "resp_json (json_response blocked_envelope)
           = Some (PDict [(''code'', PInt 300012), (''success'', PBool False), (''msg'', PStr ''blocked'')])"
    by (simp add: json_response_def blocked_envelope_def)
  have j3: "resp_json (json_response (PDict [])) = Some (PDict [])"
    by (simp add: json_response_def)
  show ?thesis
    using h1 h2 t j
      C1_request_classification [OF h1, where meth = "''GET''" and url = selfinfo_uri
        and data = NoBody and hdrs = "[]" and d = "[]" and s = PNone and c = PNone]
      C1_request_classification [OF h2, where meth = "''GET''" and url = selfinfo_uri
        and data = NoBody and hdrs = "[]"
        and d = "[(''code'', PInt 300012), (''success'', PBool False), (''msg'', PStr ''blocked'')]"
        and s = "PBool False" and c = "PInt 300012"]
      C1_request_classification [OF h3, where meth = "''GET''" and url = selfinfo_uri
        and data = NoBody and hdrs = "[]" and d = "[]" and s = PNone and c = PNone]
      t3 j3
    by (simp add: empty_response_def IP_ERROR_CODE_def)
qed

text \<open>
  C2: an envelope whose \<^verbatim>\<open>success\<close> is \<^verbatim>\<open>true\<close> is returned as a value, the \<^verbatim>\<open>data\<close> entry when
  there is one and the flag \<^verbatim>\<open>True\<close> otherwise; nothing is raised.
\<close>

theorem C2_success_returns_data:
  assumes "http_oracle w (http_n w) = Inr response"
      and "resp_text response \<noteq> []"
      and "resp_json response = Some (PDict d)"
      and "map_of d ''success'' = Some (PBool True)"
  shows "fst (request meth url data hdrs w)
         = Inr (Val (case map_of d ''data'' of Some v \<Rightarrow> v | None \<Rightarrow> PBool True))"
  using assms
  by (auto simp: request_def Let_def handle_response_def bind_exn_def split: option.splits)

theorem C2_success_returns_data_witness:
  "http_oracle (world_answering (json_response (PDict [(''success'', PBool True)])))
      (http_n (world_answering (json_response (PDict [(''success'', PBool True)]))))
     = Inr (json_response (PDict [(''success'', PBool True)]))
   \<and> resp_text (json_response (PDict [(''success'', PBool True)])) \<noteq> []
   \<and> resp_json (json_response (PDict [(''success'', PBool True)]))
     = Some (PDict [(''success'', PBool True)])
   \<and> map_of [(''success'', PBool True)] ''success'' = Some (PBool True)
   \<and> fst (request ''GET'' selfinfo_uri NoBody []
            (world_answering (json_response (PDict [(''success'', PBool True)]))))
     = Inr (Val (PBool True))"
proof -
  have h: "http_oracle (world_answering (json_response (PDict [(''success'', PBool True)])))
             (http_n (world_answering (json_response (PDict [(''success'', PBool True)]))))
           = Inr (json_response (PDict [(''success'', PBool True)]))"
    by (simp add: world_answering_def)
  have t: "resp_text (json_response (PDict [(''success'', PBool True)])) \<noteq> []"
    by (simp add: json_response_def encode_basestring_def)
  have j: "resp_json (json_response (PDict [(''success'', PBool True)]))
           = Some (PDict [(''success'', PBool True)])"
    by (simp add: json_response_def)
  have m: "map_of [(''success'', PBool True)] ''success'' = Some (PBool True)"
    by simp
  show ?thesis
    using h t j C2_success_returns_data [OF h t j m, where meth = "''GET''" and url = selfinfo_uri
        and data = NoBody and hdrs = "[]"]
    by simp
qed

section \<open>Crawling all comments\<close>

lemma sink_calls_append: "sink_calls (xs @ ys) = sink_calls xs @ sink_calls ys"
  by (induction xs rule: sink_calls.induct) auto

lemma sleeps_append: "sleeps (xs @ ys) = sleeps xs @ sleeps ys"
  by (induction xs rule: sleeps.induct) auto

lemma requests_append: "requests (xs @ ys) = requests xs @ requests ys"
  by (induction xs rule: requests.induct) auto

lemma signings_append: "signings (xs @ ys) = signings xs @ signings ys"
  by (induction xs rule: signings.induct) auto

lemma page_at_advanced: "advanced w w' k \<Longrightarrow> page_at w' i = page_at w (k + i)"
  by (simp add: advanced_def page_at_def add.assoc cong: sum.case_cong)

lemma advanced_trans: "advanced w w1 j \<Longrightarrow> advanced w1 w2 k \<Longrightarrow> advanced w w2 (j + k)"
  by (simp add: advanced_def)

lemma truthy_has_more_val: "truthy (has_more_val p) = page_has_more p"
  by (simp add: has_more_val_def page_has_more_def split: option.splits)

lemma get_note_comments_fetch:
  assumes "page_at w 0 = Inr r"
  shows "\<exists>w1. get_note_comments n cur w = (Inr r, w1) \<and> advanced w w1 1 \<and>
        sink_calls (trace w1) = sink_calls (trace w) \<and> sleeps (trace w1) = sleeps (trace w) \<and>
        requests (trace w1) = requests (trace w) @ [(''GET'', comment_uri n cur)]"
  using assms
  by (cases "sign_oracle w (sign_n w)"; cases "http_oracle w (http_n w)")
     (auto simp: get_note_comments_def get_def pre_headers_def request_def page_at_def Let_def
                 advanced_def comment_uri_def sink_calls_append sleeps_append requests_append)

lemma loop_done: "\<not> truthy hm \<Longrightarrow> comments_loop n itv cb hm cur res w = Some (Inr res, w)"
  by (subst comments_loop.simps) simp

lemma loop_stop:
  assumes "truthy hm" and "page_at w 0 = Inr (Val (PDict p))" and "map_of p ''comments'' = None"
  shows "\<exists>w'. comments_loop n itv cb hm cur res w = Some (Inr res, w') \<and> advanced w w' 1 \<and>
           sink_calls (trace w') = sink_calls (trace w) \<and> sleeps (trace w') = sleeps (trace w) \<and>
           requests (trace w') = requests (trace w) @ [(''GET'', comment_uri n cur)]"
proof -
  from get_note_comments_fetch [OF assms(2), of n cur] obtain w1 where
    f: "get_note_comments n cur w = (Inr (Val (PDict p)), w1)" and rest: "advanced w w1 1"
      "sink_calls (trace w1) = sink_calls (trace w)" "sleeps (trace w1) = sleeps (trace w)"
      "requests (trace w1) = requests (trace w) @ [(''GET'', comment_uri n cur)]"
    by blast
  have "comments_loop n itv cb hm cur res w = Some (Inr res, w1)"
    by (subst comments_loop.simps) (simp add: assms(1,3) f)
  with rest show ?thesis by blast
qed

lemma loop_step:
  assumes "truthy hm" and "page_at w 0 = Inr (Val (PDict p))"
      and "map_of p ''comments'' = Some (PList xs)" and "sink_ok cb n (PList xs)"
  shows "\<exists>w'. comments_loop n itv cb hm cur res w
                = comments_loop n itv cb (has_more_val p) (cursor_val p) (res @ xs) w' \<and>
           advanced w w' 1 \<and>
           sink_calls (trace w') = sink_calls (trace w) @ sink_call cb n (PList xs) \<and>
           sleeps (trace w') = sleeps (trace w) @ [itv] \<and>
           requests (trace w') = requests (trace w) @ [(''GET'', comment_uri n cur)]"
proof -
  from get_note_comments_fetch [OF assms(2), of n cur] obtain w1 where
    f: "get_note_comments n cur w = (Inr (Val (PDict p)), w1)" and rest: "advanced w w1 1"
      "sink_calls (trace w1) = sink_calls (trace w)" "sleeps (trace w1) = sleeps (trace w)"
      "requests (trace w1) = requests (trace w) @ [(''GET'', comment_uri n cur)]"
    by blast
  obtain w2 where r: "run_callback cb n (PList xs) w1 = (None, w2)"
      and w2: "advanced w1 w2 0" "sink_calls (trace w2) = sink_calls (trace w1) @ sink_call cb n (PList xs)"
        "sleeps (trace w2) = sleeps (trace w1)" "requests (trace w2) = requests (trace w1)"
    using assms(4)
    by (cases cb) (auto simp: run_callback_def sink_ok_def sink_call_def advanced_def
                              sink_calls_append sleeps_append requests_append)
  let ?w3 = "w2\<lparr>trace := trace w2 @ [Sleep itv]\<rparr>"
  have "comments_loop n itv cb hm cur res w
        = comments_loop n itv cb (has_more_val p) (cursor_val p) (res @ xs) ?w3"
    by (subst comments_loop.simps) (simp add: assms(1,3) f r has_more_val_def cursor_val_def)
  moreover have "advanced w ?w3 1"
    using rest(1) w2(1) by (simp add: advanced_def)
  moreover have "sink_calls (trace ?w3) = sink_calls (trace w) @ sink_call cb n (PList xs)"
    using rest w2 by (simp add: sink_calls_append)
  moreover have "sleeps (trace ?w3) = sleeps (trace w) @ [itv]"
    using rest w2 by (simp add: sleeps_append)
  moreover have "requests (trace ?w3) = requests (trace w) @ [(''GET'', comment_uri n cur)]"
    using rest w2 by (simp add: requests_append)
  ultimately show ?thesis by blast
qed

lemma serves_advanced: "advanced w w' j \<Longrightarrow> serves w' k ps = serves w (j + k) ps"
  by (induction ps arbitrary: k) (auto simp: page_at_advanced)

lemma serves_append:
  "serves w k (ps @ qs) = (serves w k ps \<and> serves w (k + length ps) qs)"
  by (induction ps arbitrary: k) auto

lemma well_formed_items:
  "well_formed_page p \<Longrightarrow> map_of p ''comments'' = Some (PList (page_items p))"
  by (auto simp: well_formed_page_def page_items_def split: option.splits pyval.splits)

lemma loop_pages:
  assumes "truthy hm" and "serves w 0 ps"
      and "list_all continuing ps"
      and "list_all (\<lambda>p. sink_ok cb n (PList (page_items p))) ps"
  shows "\<exists>w' hm' cur'. truthy hm' \<and>
           comments_loop n itv cb hm cur res w
             = comments_loop n itv cb hm' cur' (res @ concat (map page_items ps)) w' \<and>
           advanced w w' (length ps) \<and>
           sink_calls (trace w')
             = sink_calls (trace w) @ concat (map (\<lambda>p. sink_call cb n (PList (page_items p))) ps) \<and>
           sleeps (trace w') = sleeps (trace w) @ replicate (length ps) itv \<and>
           length (requests (trace w')) = length (requests (trace w)) + length ps"
  using assms
proof (induction ps arbitrary: hm cur res w)
  case Nil
  have "advanced w w 0" by (simp add: advanced_def)
  with Nil show ?case by fastforce
next
  case (Cons p ps)
  from Cons.prems have p: "page_at w 0 = Inr (Val (PDict p))" and rest: "serves w (Suc 0) ps"
    and wf: "well_formed_page p" and more: "page_has_more p"
    and ok: "sink_ok cb n (PList (page_items p))"
    by (auto simp: continuing_def)
  from loop_step [OF Cons.prems(1) p well_formed_items [OF wf] ok, of itv cur res]
  obtain w1 where
    eq1: "comments_loop n itv cb hm cur res w
          = comments_loop n itv cb (has_more_val p) (cursor_val p) (res @ page_items p) w1"
    and adv1: "advanced w w1 1"
    and tr1: "sink_calls (trace w1) = sink_calls (trace w) @ sink_call cb n (PList (page_items p))"
      "sleeps (trace w1) = sleeps (trace w) @ [itv]"
      "requests (trace w1) = requests (trace w) @ [(''GET'', comment_uri n cur)]"
    by blast
  have s1: "serves w1 0 ps" using rest serves_advanced [OF adv1, of 0 ps] by simp
  have t1: "truthy (has_more_val p)" using more by (simp add: truthy_has_more_val)
  from Cons.IH [OF t1 s1, of "cursor_val p" "res @ page_items p"] Cons.prems(3,4)
  obtain w' hm' cur' where
    t: "truthy hm'"
    and eq2: "comments_loop n itv cb (has_more_val p) (cursor_val p) (res @ page_items p) w1
              = comments_loop n itv cb hm' cur' ((res @ page_items p) @ concat (map page_items ps)) w'"
    and adv2: "advanced w1 w' (length ps)"
    and tr2: "sink_calls (trace w')
              = sink_calls (trace w1) @ concat (map (\<lambda>p. sink_call cb n (PList (page_items p))) ps)"
      "sleeps (trace w') = sleeps (trace w1) @ replicate (length ps) itv"
      "length (requests (trace w')) = length (requests (trace w1)) + length ps"
    by auto
  have "advanced w w' (length (p # ps))"
    using advanced_trans [OF adv1 adv2] by simp
  moreover have "comments_loop n itv cb hm cur res w
      = comments_loop n itv cb hm' cur' (res @ concat (map page_items (p # ps))) w'"
    using eq1 eq2 by simp
  moreover have "sink_calls (trace w')
      = sink_calls (trace w) @ concat (map (\<lambda>p. sink_call cb n (PList (page_items p))) (p # ps))"
    using tr1 tr2 by simp
  moreover have "sleeps (trace w') = sleeps (trace w) @ replicate (length (p # ps)) itv"
    using tr1 tr2 by (simp add: replicate_app_Cons_same)
  moreover have "length (requests (trace w')) = length (requests (trace w)) + length (p # ps)"
    using tr1 tr2 by simp
  ultimately show ?case using t by blast
qed

lemma crawl_stops_at_malformed_page:
  assumes "serves w 0 ps" and "list_all continuing ps"
      and "list_all (\<lambda>p. sink_ok cb n (PList (page_items p))) ps"
      and "page_at w (length ps) = Inr (Val (PDict q))" and "map_of q ''comments'' = None"
  shows "\<exists>w'. get_note_all_comments n itv cb w = Some (Inr (concat (map page_items ps)), w') \<and>
           http_n w' = http_n w + length ps + 1 \<and>
           length (requests (trace w')) = length (requests (trace w)) + length ps + 1 \<and>
           sleeps (trace w') = sleeps (trace w) @ replicate (length ps) itv"
proof -
  have t0: "truthy (PBool True)" by simp
  from loop_pages [OF t0 assms(1,2,3), of itv "PStr []" "[]"]
  obtain w1 hm1 cur1 where t: "truthy hm1"
    and eq: "comments_loop n itv cb (PBool True) (PStr []) [] w
             = comments_loop n itv cb hm1 cur1 (concat (map page_items ps)) w1"
    and adv: "advanced w w1 (length ps)"
    and tr: "sleeps (trace w1) = sleeps (trace w) @ replicate (length ps) itv"
      "length (requests (trace w1)) = length (requests (trace w)) + length ps"
    by auto
  have "page_at w1 0 = Inr (Val (PDict q))"
    using page_at_advanced [OF adv, of 0] assms(4) by simp
  from loop_stop [OF t this assms(5), of n itv cb cur1 "concat (map page_items ps)"]
  obtain w' where "comments_loop n itv cb hm1 cur1 (concat (map page_items ps)) w1
        = Some (Inr (concat (map page_items ps)), w')"
    and "advanced w1 w' 1" and "sleeps (trace w') = sleeps (trace w1)"
    and "requests (trace w') = requests (trace w1) @ [(''GET'', comment_uri n cur1)]"
    by blast
  with eq adv tr show ?thesis
    by (auto simp: get_note_all_comments_def advanced_def)
qed

lemma crawl_never_returns:
  assumes "\<forall>k. \<exists>p. page_at w k = Inr (Val (PDict p)) \<and> continuing p
                  \<and> sink_ok cb n (PList (page_items p))"
      and "truthy hm"
  shows "comments_loop n itv cb hm cur res w = None"
proof (rule ccontr)
  assume "comments_loop n itv cb hm cur res w \<noteq> None"
  then obtain y where y: "comments_loop n itv cb hm cur res w = Some y" by auto
  have "\<not> (truthy hm \<and> (\<forall>k. \<exists>p. page_at w k = Inr (Val (PDict p)) \<and> continuing p
                  \<and> sink_ok cb n (PList (page_items p))))"
    using y
  proof (induction n itv cb hm cur res w y rule: comments_loop.raw_induct [rotated 1, consumes 1])
    case (1 loop n itv cb hm cur res w y)
    show ?case
    proof
      assume a: "truthy hm \<and> (\<forall>k. \<exists>p. page_at w k = Inr (Val (PDict p)) \<and> continuing p
                  \<and> sink_ok cb n (PList (page_items p)))"
      then obtain p where p: "page_at w 0 = Inr (Val (PDict p))" and c: "continuing p"
        and ok: "sink_ok cb n (PList (page_items p))" by blast
      from get_note_comments_fetch [OF p, of n cur] obtain w1 where
        f: "get_note_comments n cur w = (Inr (Val (PDict p)), w1)" and adv: "advanced w w1 1"
        by blast
      have items: "map_of p ''comments'' = Some (PList (page_items p))"
        using c by (simp add: continuing_def well_formed_items)
      obtain w2 where r: "run_callback cb n (PList (page_items p)) w1 = (None, w2)"
        and adv2: "advanced w1 w2 0"
        using ok by (cases cb) (auto simp: run_callback_def sink_ok_def advanced_def)
      let ?w3 = "w2\<lparr>trace := trace w2 @ [Sleep itv]\<rparr>"
      have adv3: "advanced w ?w3 1" using adv adv2 by (simp add: advanced_def)
      have call: "loop n itv cb (has_more_val p) (cursor_val p) (res @ page_items p) ?w3 = Some y"
        using "1.hyps" a f items r by (simp add: has_more_val_def cursor_val_def)
      have "truthy (has_more_val p)" using c by (simp add: continuing_def truthy_has_more_val)
      moreover have "\<forall>k. \<exists>p. page_at ?w3 k = Inr (Val (PDict p)) \<and> continuing p
                  \<and> sink_ok cb n (PList (page_items p))"
        using a page_at_advanced [OF adv3] by simp
      ultimately show False using "1.IH" [OF call] by blast
    qed
  qed
  with assms show False by blast
qed

lemma page_at_scripted:
  "k < length es \<Longrightarrow> page_at (world_scripted es) k = handle_response (json_response (es ! k))"
  by (simp add: page_at_def world_scripted_def world0_def script_def)

lemma handle_ok_envelope: "handle_response (json_response (ok_envelope v)) = Inr (Val v)"
  by (simp add: handle_response_def json_response_def ok_envelope_def bind_exn_def)

text \<open>
  C3: when the first two fetches return the pages (cursor \<open>c1\<close>, \<^verbatim>\<open>has_more\<close> true, items
  \<open>[a, b]\<close>) and (cursor \<open>c2\<close>, \<^verbatim>\<open>has_more\<close> false, items \<open>[c]\<close>) -- in the claim \<open>c1\<close> is the
  empty string and \<open>c2\<close> is \<^verbatim>\<open>"x"\<close> -- the crawl returns \<open>[a, b, c]\<close>, calls the sink exactly
  twice, with \<open>[a, b]\<close> and then with \<open>[c]\<close>, sleeps exactly twice, and has sent exactly two
  requests, the second with the cursor of the first page.
\<close>

theorem C3_two_pages:
  assumes "serves w 0 [comment_page c1 True [a, b], comment_page c2 False [c]]"
      and "cb n (PList [a, b]) = None" and "cb n (PList [c]) = None"
  shows "\<exists>w'. get_note_all_comments n itv (Some cb) w = Some (Inr [a, b, c], w')
           \<and> sink_calls (trace w') = sink_calls (trace w) @ [(n, PList [a, b]), (n, PList [c])]
           \<and> sleeps (trace w') = sleeps (trace w) @ [itv, itv]
           \<and> requests (trace w')
               = requests (trace w) @ [(''GET'', comment_uri n (PStr [])), (''GET'', comment_uri n c1)]"
proof -
  let ?p1 = "comment_page c1 True [a, b]" and ?p2 = "comment_page c2 False [c]"
  have p1: "page_at w 0 = Inr (Val (PDict ?p1))" and p2: "page_at w 1 = Inr (Val (PDict ?p2))"
    using assms(1) by simp_all
  have m1: "map_of ?p1 ''comments'' = Some (PList [a, b])"
    and m2: "map_of ?p2 ''comments'' = Some (PList [c])"
    by (simp_all add: comment_page_def)
  have ok1: "sink_ok (Some cb) n (PList [a, b])" and ok2: "sink_ok (Some cb) n (PList [c])"
    using assms(2,3) by (simp_all add: sink_ok_def)
  have t0: "truthy (PBool True)" by simp
  from loop_step [OF t0 p1 m1 ok1, of itv "PStr []" "[]"] obtain w1 where
    e1: "comments_loop n itv (Some cb) (PBool True) (PStr []) [] w
         = comments_loop n itv (Some cb) (has_more_val ?p1) (cursor_val ?p1) ([] @ [a, b]) w1"
    and a1: "advanced w w1 1"
    and tr1: "sink_calls (trace w1) = sink_calls (trace w) @ sink_call (Some cb) n (PList [a, b])"
      "sleeps (trace w1) = sleeps (trace w) @ [itv]"
      "requests (trace w1) = requests (trace w) @ [(''GET'', comment_uri n (PStr []))]"
    by blast
  have h1: "has_more_val ?p1 = PBool True" and c1: "cursor_val ?p1 = c1"
    and h2: "has_more_val ?p2 = PBool False"
    by (simp_all add: has_more_val_def cursor_val_def comment_page_def)
  have p2': "page_at w1 0 = Inr (Val (PDict ?p2))"
    using page_at_advanced [OF a1, of 0] p2 by simp
  from loop_step [OF t0 p2' m2 ok2, of itv c1 "[a, b]"] obtain w2 where
    e2: "comments_loop n itv (Some cb) (PBool True) c1 [a, b] w1
         = comments_loop n itv (Some cb) (has_more_val ?p2) (cursor_val ?p2) ([a, b] @ [c]) w2"
    and tr2: "sink_calls (trace w2) = sink_calls (trace w1) @ sink_call (Some cb) n (PList [c])"
      "sleeps (trace w2) = sleeps (trace w1) @ [itv]"
      "requests (trace w2) = requests (trace w1) @ [(''GET'', comment_uri n c1)]"
    by blast
  have e3: "comments_loop n itv (Some cb) (has_more_val ?p2) (cursor_val ?p2) ([a, b] @ [c]) w2
            = Some (Inr [a, b, c], w2)"
    by (simp add: h2 loop_done)
  have "get_note_all_comments n itv (Some cb) w = Some (Inr [a, b, c], w2)"
    using e1 e2 e3 by (simp add: get_note_all_comments_def h1 c1)
  then show ?thesis
    using tr1 tr2 by (auto simp: sink_call_def)
qed

theorem C3_two_pages_witness:
  "serves (world_scripted [ok_envelope (PDict (comment_page (PStr []) True [PStr ''a'', PStr ''b''])),
                           ok_envelope (PDict (comment_page (PStr ''x'') False [PStr ''c'']))]) 0
     [comment_page (PStr []) True [PStr ''a'', PStr ''b''], comment_page (PStr ''x'') False [PStr ''c'']]
   \<and> quiet_sink ''note1'' (PList [PStr ''a'', PStr ''b'']) = None
   \<and> quiet_sink ''note1'' (PList [PStr ''c'']) = None
   \<and> result_of (get_note_all_comments ''note1'' 1 (Some quiet_sink)
        (world_scripted [ok_envelope (PDict (comment_page (PStr []) True [PStr ''a'', PStr ''b''])),
                         ok_envelope (PDict (comment_page (PStr ''x'') False [PStr ''c'']))]))
     = Some (Inr [PStr ''a'', PStr ''b'', PStr ''c''])
   \<and> sink_calls_of (get_note_all_comments ''note1'' 1 (Some quiet_sink)
        (world_scripted [ok_envelope (PDict (comment_page (PStr []) True [PStr ''a'', PStr ''b''])),
                         ok_envelope (PDict (comment_page (PStr ''x'') False [PStr ''c'']))]))
     = Some [(''note1'', PList [PStr ''a'', PStr ''b'']), (''note1'', PList [PStr ''c''])]
   \<and> sleeps_of (get_note_all_comments ''note1'' 1 (Some quiet_sink)
        (world_scripted [ok_envelope (PDict (comment_page (PStr []) True [PStr ''a'', PStr ''b''])),
                         ok_envelope (PDict (comment_page (PStr ''x'') False [PStr ''c'']))]))
     = Some [1, 1]"
proof -
  let ?w = "world_scripted [ok_envelope (PDict (comment_page (PStr []) True [PStr ''a'', PStr ''b''])),
                            ok_envelope (PDict (comment_page (PStr ''x'') False [PStr ''c'']))]"
  have s: "serves ?w 0
     [comment_page (PStr []) True [PStr ''a'', PStr ''b''], comment_page (PStr ''x'') False [PStr ''c'']]"
    by (simp add: page_at_scripted handle_ok_envelope)
  have q1: "quiet_sink ''note1'' (PList [PStr ''a'', PStr ''b'']) = None"
    and q2: "quiet_sink ''note1'' (PList [PStr ''c'']) = None"
    by (simp_all add: quiet_sink_def)
  have tr: "trace ?w = []" by (simp add: world_scripted_def world0_def)
  from C3_two_pages [where cb = quiet_sink and n = "''note1''" and itv = 1 and w = ?w
        and ?c1.0 = "PStr []" and ?c2.0 = "PStr ''x''" and a = "PStr ''a''" and b = "PStr ''b''"
        and c = "PStr ''c''", OF s q1 q2]
    s q1 q2 tr show ?thesis
    by (auto simp: result_of_def sink_calls_of_def sleeps_of_def)
qed

lemma crawl_last_page:
  assumes "serves w 0 ps" and "list_all continuing ps"
      and "list_all (\<lambda>p. sink_ok cb n (PList (page_items p))) ps"
      and "page_at w (length ps) = Inr (Val (PDict q))"
      and "well_formed_page q" and "\<not> page_has_more q"
      and "sink_ok cb n (PList (page_items q))"
  shows "\<exists>w'. get_note_all_comments n itv cb w
                = Some (Inr (concat (map page_items ps) @ page_items q), w') \<and>
           sink_calls (trace w')
             = sink_calls (trace w)
               @ concat (map (\<lambda>p. sink_call cb n (PList (page_items p))) ps)
               @ sink_call cb n (PList (page_items q)) \<and>
           sleeps (trace w') = sleeps (trace w) @ replicate (length ps) itv @ [itv]"
proof -
  have t0: "truthy (PBool True)" by simp
  from loop_pages [OF t0 assms(1,2,3), of itv "PStr []" "[]"]
  obtain w1 hm1 cur1 where t: "truthy hm1"
    and eq: "comments_loop n itv cb (PBool True) (PStr []) [] w
             = comments_loop n itv cb hm1 cur1 (concat (map page_items ps)) w1"
    and adv: "advanced w w1 (length ps)"
    and tr: "sink_calls (trace w1)
             = sink_calls (trace w) @ concat (map (\<lambda>p. sink_call cb n (PList (page_items p))) ps)"
      "sleeps (trace w1) = sleeps (trace w) @ replicate (length ps) itv"
    by auto
  have q: "page_at w1 0 = Inr (Val (PDict q))"
    using page_at_advanced [OF adv, of 0] assms(4) by simp
  from loop_step [OF t q well_formed_items [OF assms(5)] assms(7), of itv cur1 "concat (map page_items ps)"]
  obtain w2 where
    e2: "comments_loop n itv cb hm1 cur1 (concat (map page_items ps)) w1
         = comments_loop n itv cb (has_more_val q) (cursor_val q)
             (concat (map page_items ps) @ page_items q) w2"
    and tr2: "sink_calls (trace w2) = sink_calls (trace w1) @ sink_call cb n (PList (page_items q))"
      "sleeps (trace w2) = sleeps (trace w1) @ [itv]"
    by blast
  have "\<not> truthy (has_more_val q)" using assms(6) by (simp add: truthy_has_more_val)
  from loop_done [OF this] eq e2
  have "get_note_all_comments n itv cb w
        = Some (Inr (concat (map page_items ps) @ page_items q), w2)"
    by (simp add: get_note_all_comments_def)
  with tr tr2 show ?thesis by auto
qed

text \<open>
  C4, as stated, fails: a first page with zero items and \<^verbatim>\<open>has_more\<close> false still has the key
  \<^verbatim>\<open>comments\<close>, so the loop reaches \<^verbatim>\<open>await callback(note_id, comments)\<close>; the crawl returns the
  empty list, and the sink has been called once, with the empty list.
\<close>

theorem C4_counterexample:
  "result_of (get_note_all_comments ''note1'' 1 (Some quiet_sink)
      (world_scripted [ok_envelope (PDict (comment_page (PStr []) False []))]))
   = Some (Inr [])
   \<and> sink_calls_of (get_note_all_comments ''note1'' 1 (Some quiet_sink)
      (world_scripted [ok_envelope (PDict (comment_page (PStr []) False []))]))
   = Some [(''note1'', PList [])]"
proof -
  let ?w = "world_scripted [ok_envelope (PDict (comment_page (PStr []) False []))]"
  let ?q = "comment_page (PStr []) False []"
  have q: "page_at ?w (length ([] :: (string \<times> pyval) list list)) = Inr (Val (PDict ?q))"
    by (simp add: page_at_scripted handle_ok_envelope)
  have wf: "well_formed_page ?q" and nm: "\<not> page_has_more ?q" and it: "page_items ?q = []"
    by (simp_all add: well_formed_page_def page_has_more_def page_items_def comment_page_def)
  have ok: "sink_ok (Some quiet_sink) ''note1'' (PList (page_items ?q))"
    by (simp add: sink_ok_def quiet_sink_def)
  have tr: "trace ?w = []" by (simp add: world_scripted_def world0_def)
  from crawl_last_page [where ps = "[]" and cb = "Some quiet_sink" and n = "''note1''" and w = ?w
      and q = ?q and itv = 1, OF _ _ _ q wf nm ok]
  show ?thesis
    by (auto simp: it tr result_of_def sink_calls_of_def sink_call_def)
qed

text \<open>
  C4, amended: for a first page with zero items and \<^verbatim>\<open>has_more\<close> false the crawl returns the
  empty list; a sink that is supplied is called exactly once, with the empty list of items,
  and the crawl sleeps once.
\<close>

theorem C4_empty_first_page:
  assumes "serves w 0 [p]" and "map_of p ''comments'' = Some (PList [])"
      and "\<not> page_has_more p" and "cb n (PList []) = None"
  shows "\<exists>w'. get_note_all_comments n itv (Some cb) w = Some (Inr [], w')
           \<and> sink_calls (trace w') = sink_calls (trace w) @ [(n, PList [])]
           \<and> sleeps (trace w') = sleeps (trace w) @ [itv]"
proof -
  have q: "page_at w (length ([] :: (string \<times> pyval) list list)) = Inr (Val (PDict p))"
    using assms(1) by simp
  have wf: "well_formed_page p" and it: "page_items p = []"
    using assms(2) by (simp_all add: well_formed_page_def page_items_def)
  have ok: "sink_ok (Some cb) n (PList (page_items p))"
    using assms(4) by (simp add: sink_ok_def it)
  from crawl_last_page [where ps = "[]" and cb = "Some cb" and n = n and w = w
      and q = p and itv = itv, OF _ _ _ q wf assms(3) ok]
  show ?thesis by (auto simp: it sink_call_def)
qed

theorem C4_empty_first_page_witness:
  "serves (world_scripted [ok_envelope (PDict (comment_page (PStr []) False []))]) 0
     [comment_page (PStr []) False []]
   \<and> map_of (comment_page (PStr []) False []) ''comments'' = Some (PList [])
   \<and> \<not> page_has_more (comment_page (PStr []) False [])
   \<and> quiet_sink ''note1'' (PList []) = None
   \<and> result_of (get_note_all_comments ''note1'' 1 (Some quiet_sink)
        (world_scripted [ok_envelope (PDict (comment_page (PStr []) False []))]))
     = Some (Inr [])
   \<and> sleeps_of (get_note_all_comments ''note1'' 1 (Some quiet_sink)
        (world_scripted [ok_envelope (PDict (comment_page (PStr []) False []))]))
     = Some [1]"
proof -
  let ?w = "world_scripted [ok_envelope (PDict (comment_page (PStr []) False []))]"
  have s: "serves ?w 0 [comment_page (PStr []) False []]"
    by (simp add: page_at_scripted handle_ok_envelope)
  have m: "map_of (comment_page (PStr []) False []) ''comments'' = Some (PList [])"
    by (simp add: comment_page_def)
  have nm: "\<not> page_has_more (comment_page (PStr []) False [])"
    by (simp add: page_has_more_def comment_page_def)
  have q: "quiet_sink ''note1'' (PList []) = None" by (simp add: quiet_sink_def)
  have tr: "trace ?w = []" by (simp add: world_scripted_def world0_def)
  from C4_empty_first_page [where cb = quiet_sink and n = "''note1''" and w = ?w
      and p = "comment_page (PStr []) False []" and itv = 1, OF s m nm q] s m nm q tr
  show ?thesis by (auto simp: result_of_def sleeps_of_def)
qed

lemma serves_map:
  "(\<forall>i<m. page_at w (j + i) = Inr (Val (PDict (pg (j + i))))) \<Longrightarrow> serves w j (map pg [j..<j + m])"
proof (induction m arbitrary: j)
  case 0
  then show ?case by simp
next
  case (Suc m)
  have "page_at w j = Inr (Val (PDict (pg j)))" using Suc.prems [rule_format, of 0] by simp
  moreover have "serves w (Suc j) (map pg [Suc j..<Suc j + m])"
  proof (rule Suc.IH)
    show "\<forall>i<m. page_at w (Suc j + i) = Inr (Val (PDict (pg (Suc j + i))))"
      using Suc.prems [rule_format, of "Suc _"] by simp
  qed
  moreover have "[j..<j + Suc m] = j # [Suc j..<Suc j + m]"
    by (subst upt_rec) simp
  ultimately show ?case by (simp del: upt_Suc)
qed

lemma crawl_returns_iff:
  assumes pages: "\<forall>k. page_at w k = Inr (Val (PDict (pg k)))"
      and shape: "\<forall>k. map_of (pg k) ''comments'' = None \<or> well_formed_page (pg k)"
      and sink: "\<forall>k. sink_ok cb n (PList (page_items (pg k)))"
  shows "(\<exists>r. get_note_all_comments n itv cb w = Some r)
         \<longleftrightarrow> (\<exists>k. map_of (pg k) ''comments'' = None \<or> \<not> page_has_more (pg k))"
proof
  assume "\<exists>r. get_note_all_comments n itv cb w = Some r"
  show "\<exists>k. map_of (pg k) ''comments'' = None \<or> \<not> page_has_more (pg k)"
  proof (rule ccontr)
    assume "\<not> ?thesis"
    then have neg: "\<And>k. map_of (pg k) ''comments'' \<noteq> None \<and> page_has_more (pg k)" by simp
    have "\<forall>k. continuing (pg k)"
    proof
      fix k
      show "continuing (pg k)"
        using neg [of k] shape [rule_format, of k] by (auto simp: continuing_def)
    qed
    with pages sink
    have "\<forall>k. \<exists>p. page_at w k = Inr (Val (PDict p)) \<and> continuing p
                  \<and> sink_ok cb n (PList (page_items p))" by blast
    from crawl_never_returns [OF this, of "PBool True" itv "PStr []" "[]"]
    have "get_note_all_comments n itv cb w = None" by (simp add: get_note_all_comments_def)
    with \<open>\<exists>r. get_note_all_comments n itv cb w = Some r\<close> show False by simp
  qed
next
  assume "\<exists>k. map_of (pg k) ''comments'' = None \<or> \<not> page_has_more (pg k)"
  then obtain k where k: "map_of (pg k) ''comments'' = None \<or> \<not> page_has_more (pg k)"
    and least: "\<forall>i<k. \<not> (map_of (pg i) ''comments'' = None \<or> \<not> page_has_more (pg i))"
    using exists_least_iff [of "\<lambda>k. map_of (pg k) ''comments'' = None \<or> \<not> page_has_more (pg k)"]
    by blast
  let ?ps = "map pg [0..<k]"
  have s: "serves w 0 ?ps" using serves_map [of k w 0 pg] pages by simp
  have c: "list_all continuing ?ps"
    unfolding list_all_iff
  proof
    fix p assume "p \<in> set ?ps"
    then obtain i where i: "i < k" "p = pg i" by auto
    from least i(1) have "map_of (pg i) ''comments'' \<noteq> None" "page_has_more (pg i)" by auto
    with shape [rule_format, of i] show "continuing p"
      by (auto simp: continuing_def i(2))
  qed
  have o: "list_all (\<lambda>p. sink_ok cb n (PList (page_items p))) ?ps"
    using sink by (simp add: list_all_iff)
  have q: "page_at w (length ?ps) = Inr (Val (PDict (pg k)))" using pages by simp
  show "\<exists>r. get_note_all_comments n itv cb w = Some r"
  proof (cases "map_of (pg k) ''comments'' = None")
    case True
    from crawl_stops_at_malformed_page [OF s c o q True, of itv] show ?thesis by blast
  next
    case False
    then have "well_formed_page (pg k)" "\<not> page_has_more (pg k)"
      using shape [rule_format, of k] k by auto
    from crawl_last_page [OF s c o q this sink [rule_format], of itv] show ?thesis by blast
  qed
qed

lemma page_at_answering: "page_at (world_answering r) k = handle_response r"
  by (simp add: page_at_def world_answering_def world0_def)

text \<open>
  C5: when the pages \<open>ps\<close> fetched first all have items and a true \<^verbatim>\<open>has_more\<close> (and the sink
  does not raise on them) and the next fetch returns a dictionary \<open>q\<close> without the key
  \<^verbatim>\<open>comments\<close>, the crawl stops at that page, after \<open>length ps + 1\<close> requests, and returns
  exactly the items of \<open>ps\<close>; nothing is raised. Consequently, over a stream of pages \<open>pg\<close> that
  are dictionaries whose \<^verbatim>\<open>comments\<close>, when present, is a list, the crawl returns if and only
  if some page lacks the key \<^verbatim>\<open>comments\<close> or has a false \<^verbatim>\<open>has_more\<close>; otherwise it runs
  forever.
\<close>

theorem C5_malformed_page_stops:
  "(serves w 0 ps \<and> list_all continuing ps
      \<and> list_all (\<lambda>p. sink_ok cb n (PList (page_items p))) ps
      \<and> page_at w (length ps) = Inr (Val (PDict q)) \<and> map_of q ''comments'' = None
    \<longrightarrow> (\<exists>w'. get_note_all_comments n itv cb w = Some (Inr (concat (map page_items ps)), w')
              \<and> http_n w' = http_n w + length ps + 1))
   \<and> ((\<forall>k. page_at w k = Inr (Val (PDict (pg k)))
            \<and> (map_of (pg k) ''comments'' = None \<or> well_formed_page (pg k))
            \<and> sink_ok cb n (PList (page_items (pg k))))
    \<longrightarrow> ((\<exists>r. get_note_all_comments n itv cb w = Some r)
          \<longleftrightarrow> (\<exists>k. map_of (pg k) ''comments'' = None \<or> \<not> page_has_more (pg k))))"
proof (intro conjI impI)
  assume a: "serves w 0 ps \<and> list_all continuing ps
      \<and> list_all (\<lambda>p. sink_ok cb n (PList (page_items p))) ps
      \<and> page_at w (length ps) = Inr (Val (PDict q)) \<and> map_of q ''comments'' = None"
  then have "serves w 0 ps" "list_all continuing ps"
    "list_all (\<lambda>p. sink_ok cb n (PList (page_items p))) ps"
    "page_at w (length ps) = Inr (Val (PDict q))" "map_of q ''comments'' = None"
    by simp_all
  from crawl_stops_at_malformed_page [OF this, of itv]
  show "\<exists>w'. get_note_all_comments n itv cb w = Some (Inr (concat (map page_items ps)), w')
              \<and> http_n w' = http_n w + length ps + 1"
    by blast
next
  assume "\<forall>k. page_at w k = Inr (Val (PDict (pg k)))
            \<and> (map_of (pg k) ''comments'' = None \<or> well_formed_page (pg k))
            \<and> sink_ok cb n (PList (page_items (pg k)))"
  then show "(\<exists>r. get_note_all_comments n itv cb w = Some r)
          \<longleftrightarrow> (\<exists>k. map_of (pg k) ''comments'' = None \<or> \<not> page_has_more (pg k))"
    using crawl_returns_iff [of w pg cb n itv] by blast
qed

theorem C5_malformed_page_stops_witness:
  "serves (world_scripted [ok_envelope (PDict (comment_page (PStr ''c1'') True [PStr ''a''])),
                           ok_envelope (PDict [(''has_more'', PBool True)])]) 0
     [comment_page (PStr ''c1'') True [PStr ''a'']]
   \<and> list_all continuing [comment_page (PStr ''c1'') True [PStr ''a'']]
   \<and> page_at (world_scripted [ok_envelope (PDict (comment_page (PStr ''c1'') True [PStr ''a''])),
                               ok_envelope (PDict [(''has_more'', PBool True)])]) 1
     = Inr (Val (PDict [(''has_more'', PBool True)]))
   \<and> map_of [(''has_more'', PBool True)] ''comments'' = None
   \<and> result_of (get_note_all_comments ''note1'' 1 None
        (world_scripted [ok_envelope (PDict (comment_page (PStr ''c1'') True [PStr ''a''])),
                         ok_envelope (PDict [(''has_more'', PBool True)])]))
     = Some (Inr [PStr ''a''])
   \<and> (\<forall>k. page_at (world_answering (json_response (ok_envelope
              (PDict (comment_page (PStr ''c1'') True [PStr ''a'']))))) k
          = Inr (Val (PDict (comment_page (PStr ''c1'') True [PStr ''a'']))))
   \<and> well_formed_page (comment_page (PStr ''c1'') True [PStr ''a''])
   \<and> page_has_more (comment_page (PStr ''c1'') True [PStr ''a''])
   \<and> get_note_all_comments ''note1'' 1 None
        (world_answering (json_response (ok_envelope
              (PDict (comment_page (PStr ''c1'') True [PStr ''a''])))))
     = None"
proof -
  let ?p = "comment_page (PStr ''c1'') True [PStr ''a'']"
  let ?q = "[(''has_more'', PBool True)]"
  let ?w = "world_scripted [ok_envelope (PDict ?p), ok_envelope (PDict ?q)]"
  let ?v = "world_answering (json_response (ok_envelope (PDict ?p)))"
  have s: "serves ?w 0 [?p]" by (simp add: page_at_scripted handle_ok_envelope)
  have wf: "well_formed_page ?p" and hm: "page_has_more ?p" and it: "page_items ?p = [PStr ''a'']"
    by (simp_all add: well_formed_page_def page_has_more_def page_items_def comment_page_def)
  have c: "list_all continuing [?p]" using wf hm by (simp add: continuing_def)
  have o: "list_all (\<lambda>p. sink_ok None ''note1'' (PList (page_items p))) [?p]"
    by (simp add: sink_ok_def)
  have q: "page_at ?w (length [?p]) = Inr (Val (PDict ?q))"
    by (simp add: page_at_scripted handle_ok_envelope)
  have m: "map_of ?q ''comments'' = None" by simp
  have all: "\<forall>k. page_at ?v k = Inr (Val (PDict ?p))"
    by (simp add: page_at_answering handle_ok_envelope)
  have hyp: "\<forall>k. page_at ?v k = Inr (Val (PDict ((\<lambda>k. ?p) k)))
            \<and> (map_of ((\<lambda>k. ?p) k) ''comments'' = None \<or> well_formed_page ((\<lambda>k. ?p) k))
            \<and> sink_ok None ''note1'' (PList (page_items ((\<lambda>k. ?p) k)))"
    using all wf by (simp add: sink_ok_def)
  have nostop: "\<not> (\<exists>k::nat. map_of ((\<lambda>k. ?p) k) ''comments'' = None \<or> \<not> page_has_more ((\<lambda>k. ?p) k))"
    using hm by (simp add: comment_page_def)
  have a: "\<exists>w'. get_note_all_comments ''note1'' 1 None ?w = Some (Inr (concat (map page_items [?p])), w')
              \<and> http_n w' = http_n ?w + length [?p] + 1"
    using C5_malformed_page_stops [where w = ?w and ps = "[?p]" and cb = None and n = "''note1''"
        and q = ?q and itv = 1, THEN conjunct1] s c o q m
    by blast
  have b: "(\<exists>r. get_note_all_comments ''note1'' 1 None ?v = Some r)
          \<longleftrightarrow> (\<exists>k::nat. map_of ((\<lambda>k. ?p) k) ''comments'' = None \<or> \<not> page_has_more ((\<lambda>k. ?p) k))"
    using C5_malformed_page_stops [where w = ?v and pg = "\<lambda>k. ?p" and cb = None and n = "''note1''"
        and itv = 1, THEN conjunct2] hyp
    by blast
  have none: "get_note_all_comments ''note1'' 1 None ?v = None"
    using b nostop by (cases "get_note_all_comments ''note1'' 1 None ?v") auto
  have res: "result_of (get_note_all_comments ''note1'' 1 None ?w) = Some (Inr [PStr ''a''])"
    using a by (auto simp: result_of_def it)
  show ?thesis
    using s c q m res all wf hm none by simp
qed

section \<open>The liveness probe\<close>

lemma post_fst:
  "sign_oracle w (sign_n w) = Inr sg \<Longrightarrow> http_oracle w (http_n w) = Inr r
   \<Longrightarrow> fst (post uri data w) = handle_response r"
  by (simp add: post_def pre_headers_def request_def Let_def)

lemma post_fst_transport:
  "sign_oracle w (sign_n w) = Inr sg \<Longrightarrow> http_oracle w (http_n w) = Inl e
   \<Longrightarrow> fst (post uri data w) = Inl e"
  by (simp add: post_def pre_headers_def request_def Let_def)

text \<open>
  C9: whatever the signing oracle and the transport do, \<^verbatim>\<open>pong\<close> returns a flag and raises
  nothing; an exception of the probe gives \<open>False\<close>; the flag is \<open>True\<close> exactly when the probe
  returned a dictionary whose \<^verbatim>\<open>items\<close> is true (non-empty). The effects of \<^verbatim>\<open>pong\<close> are those of
  the probe.
\<close>

theorem C9_pong_never_raises:
  "(\<exists>flag. fst (pong sort_general note_all w) = Inr flag)
   \<and> (fst (pong sort_general note_all w) = Inr True
        \<longleftrightarrow> (\<exists>d v. fst (get_note_by_keyword pong_keyword 1 20 sort_general note_all w)
                        = Inr (Val (PDict d))
                    \<and> map_of d ''items'' = Some v \<and> truthy v))
   \<and> (\<forall>e. fst (get_note_by_keyword pong_keyword 1 20 sort_general note_all w) = Inl e
        \<longrightarrow> fst (pong sort_general note_all w) = Inr False)
   \<and> snd (pong sort_general note_all w)
       = snd (get_note_by_keyword pong_keyword 1 20 sort_general note_all w)"
proof -
  obtain r w1 where g: "get_note_by_keyword pong_keyword 1 20 sort_general note_all w = (r, w1)"
    by (cases "get_note_by_keyword pong_keyword 1 20 sort_general note_all w")
  show ?thesis
  proof (cases r)
    case (Inl e)
    with g show ?thesis by (auto simp: pong_def)
  next
    case (Inr note_card)
    show ?thesis
    proof (cases note_card)
      case (Resp x)
      with g Inr show ?thesis by (auto simp: pong_def bind_exn_def)
    next
      case (Val v)
      with g Inr show ?thesis
        by (cases v) (auto simp: pong_def bind_exn_def split: option.splits)
    qed
  qed
qed

theorem C9_pong_never_raises_witness:
  "fst (get_note_by_keyword pong_keyword 1 20 (PStr ''general'') (PInt 0) world0)
     = Inl (TransportError ''connection refused'')
   \<and> fst (pong (PStr ''general'') (PInt 0) world0) = Inr False
   \<and> fst (pong (PStr ''general'') (PInt 0) (world_answering (json_response search_envelope)))
     = Inr True"
proof -
  have g: "fst (get_note_by_keyword pong_keyword 1 20 (PStr ''general'') (PInt 0) world0)
           = Inl (TransportError ''connection refused'')"
    by (simp add: get_note_by_keyword_def Let_def post_fst_transport [where sg = signs0] world0_def)
  have g2: "fst (get_note_by_keyword pong_keyword 1 20 (PStr ''general'') (PInt 0)
                  (world_answering (json_response search_envelope)))
            = Inr (Val (PDict [(''has_more'', PBool True), (''items'', PList [PDict [(''id'', PStr ''n1'')]])]))"
    by (simp add: get_note_by_keyword_def Let_def
          post_fst [where sg = signs0 and r = "json_response search_envelope"]
          world_answering_def world0_def search_envelope_def handle_ok_envelope)
  from C9_pong_never_raises [of "PStr ''general''" "PInt 0" world0] g
  have f: "fst (pong (PStr ''general'') (PInt 0) world0) = Inr False" by blast
  from C9_pong_never_raises [of "PStr ''general''" "PInt 0"
         "world_answering (json_response search_envelope)"] g2
  have t: "fst (pong (PStr ''general'') (PInt 0) (world_answering (json_response search_envelope)))
           = Inr True" by simp
  from g f t show ?thesis by simp
qed

section \<open>Uploading and publishing\<close>

lemma request_trace:
  "trace (snd (request m u b h w)) = trace w @ [Http m u h b]"
  "sign_n (snd (request m u b h w)) = sign_n w"
  "headers (snd (request m u b h w)) = headers w"
  "http_n (snd (request m u b h w)) = Suc (http_n w)"
  "fst (request m u b h w) = (case http_oracle w (http_n w) of Inl e \<Rightarrow> Inl e | Inr r \<Rightarrow> handle_response r)"
  by (simp_all add: request_def Let_def split: sum.splits)

lemma methods_append: "methods (xs @ ys) = methods xs @ methods ys"
  by (simp add: methods_def requests_append)

lemma get_methods:
  "\<exists>evs. trace (snd (get uri params w)) = trace w @ evs \<and> set (methods evs) \<subseteq> {''GET''}
          \<and> length (methods evs) \<le> 1"
  by (cases "sign_oracle w (sign_n w)")
     (auto simp: get_def pre_headers_def Let_def request_trace methods_def)

lemma permit_methods:
  "\<exists>evs. trace (snd (get_upload_files_permit ft c w)) = trace w @ evs \<and> set (methods evs) \<subseteq> {''GET''}
          \<and> length (methods evs) \<le> 1"
proof -
  let ?g = "get ''/api/media/v1/upload/web/permit''
             (Some [(''biz_name'', PStr ''spectrum''), (''scene'', PStr ft),
                    (''file_count'', PInt c), (''version'', PStr ''1''),
                    (''source'', PStr ''web'')]) w"
  have "snd (get_upload_files_permit ft c w) = snd ?g"
    by (cases ?g; cases "fst ?g") (auto simp: get_upload_files_permit_def)
  with get_methods show ?thesis by simp
qed

lemma upload_methods:
  "\<exists>evs. trace (snd (upload_file fid tok path ct w)) = trace w @ evs \<and> set (methods evs) \<subseteq> {''PUT''}
          \<and> length (methods evs) \<le> 1"
  by (cases fid; cases "getsize w path"; cases "fopen w path")
     (auto simp: upload_file_def Let_def request_trace methods_def)

lemma handle_empty_response: "handle_response empty_response = Inr (Resp empty_response)"
  by (simp add: handle_response_def empty_response_def)

lemmas eval_defs = get_upload_files_permit_def get_def pre_headers_def request_def Let_def
  world_C7_def world_with_files_def world_replying_def world0_def script_def
  permit_envelope_def handle_ok_envelope bind_exn_def list_index_def dict_update_def
  upload_file_def max_file_size_def handle_empty_response signs0_def

lemma get_sent:
  assumes "get uri params w0 = (Inr res, w)"
  shows "methods (trace w) = methods (trace w0) @ [''GET'']"
  using assms
  by (cases "sign_oracle w0 (sign_n w0)")
     (auto simp: get_def pre_headers_def Let_def request_def methods_def requests_append
           split: sum.splits)

lemma permit_sent:
  assumes "get_upload_files_permit ft c w0 = (Inr p, w)"
  shows "methods (trace w) = methods (trace w0) @ [''GET'']"
proof -
  let ?g = "get ''/api/media/v1/upload/web/permit''
             (Some [(''biz_name'', PStr ''spectrum''), (''scene'', PStr ft),
                    (''file_count'', PInt c), (''version'', PStr ''1''),
                    (''source'', PStr ''web'')]) w0"
  obtain r w1 where g: "?g = (r, w1)" by (cases ?g)
  from assms g obtain res where "r = Inr res" and "w1 = w"
    by (cases r) (auto simp: get_upload_files_permit_def)
  with g have "?g = (Inr res, w)" by simp
  then show ?thesis by (rule get_sent)
qed

text \<open>
  C6, as stated, fails: the size check of \<^verbatim>\<open>upload_file\<close> compares the content type with the
  string \<^verbatim>\<open>"video/mp4"\<close> only. A readable file of 6 MiB sent with the video content type
  \<^verbatim>\<open>"video/quicktime"\<close> is not refused: the transfer request is sent and its answer returned.
\<close>

theorem C6_counterexample:
  "getsize (world_with_files (6 * 1024 * 1024) (world_answering empty_response)) ''clip.mov''
     = Inr (6 * 1024 * 1024)
   \<and> fst (upload_file (PStr ''file1'') (PStr ''tok'') ''clip.mov'' ''video/quicktime''
            (world_with_files (6 * 1024 * 1024) (world_answering empty_response)))
     = Inr (Resp empty_response)
   \<and> trace (snd (upload_file (PStr ''file1'') (PStr ''tok'') ''clip.mov'' ''video/quicktime''
            (world_with_files (6 * 1024 * 1024) (world_answering empty_response))))
     = [Http ''PUT'' (Uri ''https://ros-upload.xiaohongshu.com/file1'' None)
          [(''X-Cos-Security-Token'', PStr ''tok''), (''Content-Type'', PStr ''video/quicktime'')]
          (FileBody ''clip.mov'')]"
  by (simp add: upload_file_def max_file_size_def Let_def request_def world_with_files_def
                world_answering_def world0_def handle_empty_response)

text \<open>
  C6, amended: a file larger than 5 MiB sent with the content type \<^verbatim>\<open>"video/mp4"\<close> fails with
  the size-limit exception and leaves the world as it was: \<^verbatim>\<open>upload_file\<close> has sent no request
  and has not opened the file. The check does not come before the permit: \<^verbatim>\<open>upload_file\<close>
  takes the file id and the token of a permit as arguments, and when they come from
  \<^verbatim>\<open>get_upload_files_permit\<close> the GET of that permit is the one request that precedes the
  failure. A readable file sent as \<^verbatim>\<open>"image/jpeg"\<close> or \<^verbatim>\<open>"image/png"\<close> goes to the transfer
  whatever its size, in particular under the limit.
\<close>

theorem C6_oversized_video_fails_fast:
  assumes "getsize w file_path = Inr sz"
  shows "(5 * 1024 * 1024 < sz
           \<longrightarrow> upload_file (PStr fid) token file_path ''video/mp4'' w
                = (Inl (PyException ''video too large, < 5M''), w))
       \<and> (5 * 1024 * 1024 < sz
            \<and> get_upload_files_permit file_type count w0 = (Inr (PStr fid, token), w)
           \<longrightarrow> methods (trace (snd (upload_file (PStr fid) token file_path ''video/mp4'' w)))
                = methods (trace w0) @ [''GET''])
       \<and> ((content_type = ''image/jpeg'' \<or> content_type = ''image/png'') \<and> fopen w file_path = None
           \<longrightarrow> upload_file (PStr fid) token file_path content_type w
                = request ''PUT'' (Uri (''https://ros-upload.xiaohongshu.com/'' @ fid) None)
                    (FileBody file_path)
                    [(''X-Cos-Security-Token'', token), (''Content-Type'', PStr content_type)] w)"
proof -
  have a: "upload_file (PStr fid) token file_path ''video/mp4'' w
             = (Inl (PyException ''video too large, < 5M''), w)" if "5 * 1024 * 1024 < sz"
    using assms that by (simp add: upload_file_def max_file_size_def Let_def)
  have b: "methods (trace (snd (upload_file (PStr fid) token file_path ''video/mp4'' w)))
             = methods (trace w0) @ [''GET'']"
    if "5 * 1024 * 1024 < sz" and "get_upload_files_permit file_type count w0 = (Inr (PStr fid, token), w)"
    using a [OF that(1)] permit_sent [OF that(2)] by simp
  have c: "upload_file (PStr fid) token file_path content_type w
             = request ''PUT'' (Uri (''https://ros-upload.xiaohongshu.com/'' @ fid) None)
                 (FileBody file_path)
                 [(''X-Cos-Security-Token'', token), (''Content-Type'', PStr content_type)] w"
    if "content_type = ''image/jpeg'' \<or> content_type = ''image/png''" and "fopen w file_path = None"
    using assms that by (auto simp: upload_file_def max_file_size_def Let_def)
  from a b c show ?thesis by blast
qed

theorem C6_oversized_video_fails_fast_witness:
  "getsize world_C6_permit ''clip.mp4'' = Inr (6 * 1024 * 1024)
   \<and> (5 * 1024 * 1024 :: nat) < 6 * 1024 * 1024
   \<and> get_upload_files_permit ''video'' 1 world_C6 = (Inr (PStr ''id1'', PStr ''tok1''), world_C6_permit)
   \<and> upload_file (PStr ''id1'') (PStr ''tok1'') ''clip.mp4'' ''video/mp4'' world_C6_permit
     = (Inl (PyException ''video too large, < 5M''), world_C6_permit)
   \<and> methods (trace (snd (upload_file (PStr ''id1'') (PStr ''tok1'') ''clip.mp4'' ''video/mp4''
                           world_C6_permit))) = [''GET'']
   \<and> fopen world_C6_permit ''clip.mp4'' = None
   \<and> methods (trace (snd (upload_file (PStr ''id1'') (PStr ''tok1'') ''clip.mp4'' ''image/png''
                           world_C6_permit))) = [''GET'', ''PUT'']"
proof -
  have p1: "fst (get_upload_files_permit ''video'' 1 world_C6) = Inr (PStr ''id1'', PStr ''tok1'')"
    by (simp add: eval_defs world_C6_def)
  have p: "get_upload_files_permit ''video'' 1 world_C6
             = (Inr (PStr ''id1'', PStr ''tok1''), world_C6_permit)"
    unfolding world_C6_permit_def using p1 by (simp add: prod_eq_iff)
  have g: "getsize world_C6_permit ''clip.mp4'' = Inr (6 * 1024 * 1024)"
    and f: "fopen world_C6_permit ''clip.mp4'' = None"
    by (simp_all add: world_C6_permit_def eval_defs world_C6_def)
  have t0: "methods (trace world_C6) = []"
    by (simp add: world_C6_def world_with_files_def world_replying_def world0_def methods_def)
  have lt: "(5 * 1024 * 1024 :: nat) < 6 * 1024 * 1024" by simp
  note th = C6_oversized_video_fails_fast [OF g, where fid = "''id1''" and token = "PStr ''tok1''"
      and ?w0.0 = world_C6 and file_type = "''video''" and count = 1
      and content_type = "''image/png''"]
  have a: "upload_file (PStr ''id1'') (PStr ''tok1'') ''clip.mp4'' ''video/mp4'' world_C6_permit
             = (Inl (PyException ''video too large, < 5M''), world_C6_permit)"
    using th lt by blast
  have b: "methods (trace (snd (upload_file (PStr ''id1'') (PStr ''tok1'') ''clip.mp4'' ''video/mp4''
             world_C6_permit))) = methods (trace world_C6) @ [''GET'']"
    using th lt p by blast
  have c: "upload_file (PStr ''id1'') (PStr ''tok1'') ''clip.mp4'' ''image/png'' world_C6_permit
             = request ''PUT'' (Uri (''https://ros-upload.xiaohongshu.com/'' @ ''id1'') None)
                 (FileBody ''clip.mp4'')
                 [(''X-Cos-Security-Token'', PStr ''tok1''), (''Content-Type'', PStr ''image/png'')]
                 world_C6_permit"
    using th f by blast
  have d: "methods (trace (snd (upload_file (PStr ''id1'') (PStr ''tok1'') ''clip.mp4'' ''image/png''
             world_C6_permit))) = [''GET'', ''PUT'']"
    using a b t0 by (simp add: c request_trace methods_append) (simp add: methods_def)
  from g lt p a b t0 f d show ?thesis by simp
qed

text \<open>
  C10: the limit is 5 * 1024 * 1024 bytes, and \<^verbatim>\<open>upload_file\<close> rejects a readable file exactly
  when its size is strictly above the limit and the content type is the string
  \<^verbatim>\<open>"video/mp4"\<close>. In every other case it sends one PUT to the upload host, with the token
  in the header \<^verbatim>\<open>X-Cos-Security-Token\<close>, the file as body, no signing and no change of the
  session headers, and returns what \<^verbatim>\<open>request\<close> makes of the answer.
\<close>

theorem C10_size_check_exact:
  assumes "getsize w file_path = Inr sz" and "fopen w file_path = None"
  shows "max_file_size = 5 * 1024 * 1024
       \<and> (max_file_size < sz \<and> content_type = ''video/mp4''
           \<longrightarrow> upload_file (PStr fid) token file_path content_type w
                = (Inl (PyException ''video too large, < 5M''), w))
       \<and> (\<not> (max_file_size < sz \<and> content_type = ''video/mp4'')
           \<longrightarrow> fst (upload_file (PStr fid) token file_path content_type w)
                  = (case http_oracle w (http_n w) of Inl e \<Rightarrow> Inl e | Inr r \<Rightarrow> handle_response r)
             \<and> trace (snd (upload_file (PStr fid) token file_path content_type w))
                  = trace w @ [Http ''PUT'' (Uri (''https://ros-upload.xiaohongshu.com/'' @ fid) None)
                                 [(''X-Cos-Security-Token'', token), (''Content-Type'', PStr content_type)]
                                 (FileBody file_path)]
             \<and> sign_n (snd (upload_file (PStr fid) token file_path content_type w)) = sign_n w
             \<and> headers (snd (upload_file (PStr fid) token file_path content_type w)) = headers w)"
  using assms by (auto simp: upload_file_def max_file_size_def Let_def request_trace)

theorem C10_size_check_exact_witness:
  "getsize (world_with_files (5 * 1024 * 1024) world0) ''clip.mp4'' = Inr (5 * 1024 * 1024)
   \<and> fopen (world_with_files (5 * 1024 * 1024) world0) ''clip.mp4'' = None
   \<and> trace (snd (upload_file (PStr ''file1'') (PStr ''tok'') ''clip.mp4'' ''video/mp4''
            (world_with_files (5 * 1024 * 1024) world0)))
     = [Http ''PUT'' (Uri ''https://ros-upload.xiaohongshu.com/file1'' None)
          [(''X-Cos-Security-Token'', PStr ''tok''), (''Content-Type'', PStr ''video/mp4'')]
          (FileBody ''clip.mp4'')]
   \<and> getsize (world_with_files (5 * 1024 * 1024 + 1) world0) ''clip.mp4'' = Inr (5 * 1024 * 1024 + 1)
   \<and> fopen (world_with_files (5 * 1024 * 1024 + 1) world0) ''clip.mp4'' = None
   \<and> upload_file (PStr ''file1'') (PStr ''tok'') ''clip.mp4'' ''video/mp4''
            (world_with_files (5 * 1024 * 1024 + 1) world0)
     = (Inl (PyException ''video too large, < 5M''), world_with_files (5 * 1024 * 1024 + 1) world0)
   \<and> trace (snd (upload_file (PStr ''file1'') (PStr ''tok'') ''clip.mp4'' ''video/quicktime''
            (world_with_files (5 * 1024 * 1024 + 1) world0)))
     = [Http ''PUT'' (Uri ''https://ros-upload.xiaohongshu.com/file1'' None)
          [(''X-Cos-Security-Token'', PStr ''tok''), (''Content-Type'', PStr ''video/quicktime'')]
          (FileBody ''clip.mp4'')]"
proof -
  let ?w = "world_with_files (5 * 1024 * 1024) world0"
  let ?v = "world_with_files (5 * 1024 * 1024 + 1) world0"
  have g: "getsize ?w ''clip.mp4'' = Inr (5 * 1024 * 1024)"
    and f: "fopen ?w ''clip.mp4'' = None" and tr: "trace ?w = []"
    and g': "getsize ?v ''clip.mp4'' = Inr (5 * 1024 * 1024 + 1)"
    and f': "fopen ?v ''clip.mp4'' = None" and tr': "trace ?v = []"
    by (simp_all add: world_with_files_def world0_def)
  have a: "trace (snd (upload_file (PStr ''file1'') (PStr ''tok'') ''clip.mp4'' ''video/mp4'' ?w))
     = [Http ''PUT'' (Uri ''https://ros-upload.xiaohongshu.com/file1'' None)
          [(''X-Cos-Security-Token'', PStr ''tok''), (''Content-Type'', PStr ''video/mp4'')]
          (FileBody ''clip.mp4'')]"
    using C10_size_check_exact [OF g f, where fid = "''file1''" and token = "PStr ''tok''"
      and content_type = "''video/mp4''", THEN conjunct2, THEN conjunct2] tr
    by (simp add: max_file_size_def)
  have b: "upload_file (PStr ''file1'') (PStr ''tok'') ''clip.mp4'' ''video/mp4'' ?v
     = (Inl (PyException ''video too large, < 5M''), ?v)"
    using C10_size_check_exact [OF g' f', where fid = "''file1''" and token = "PStr ''tok''"
      and content_type = "''video/mp4''", THEN conjunct2, THEN conjunct1]
    by (simp add: max_file_size_def)
  have c: "trace (snd (upload_file (PStr ''file1'') (PStr ''tok'') ''clip.mp4'' ''video/quicktime'' ?v))
     = [Http ''PUT'' (Uri ''https://ros-upload.xiaohongshu.com/file1'' None)
          [(''X-Cos-Security-Token'', PStr ''tok''), (''Content-Type'', PStr ''video/quicktime'')]
          (FileBody ''clip.mp4'')]"
    using C10_size_check_exact [OF g' f', where fid = "''file1''" and token = "PStr ''tok''"
      and content_type = "''video/quicktime''", THEN conjunct2, THEN conjunct2] tr'
    by simp
  from g f g' f' a b c show ?thesis by simp
qed

text \<open>
  C7: in \<^verbatim>\<open>create_image_note\<close> with the three files \<open>f1\<close>, \<open>f2\<close>, \<open>f3\<close>, when the permit and the
  transfer of \<open>f1\<close> succeed, the permit of \<open>f2\<close> succeeds and the transfer of \<open>f2\<close> raises \<open>e\<close>,
  the composite operation raises \<open>e\<close> in the very world \<open>w4\<close> that the failed transfer left:
  nothing happens afterwards. The requests sent since the start are at most four, all GET
  (permit) or PUT (transfer): no POST publishes the note and no request deletes the upload of
  \<open>f1\<close>.
\<close>

theorem C7_second_transfer_fails:
  assumes "get_upload_files_permit ''image'' 1 w = (Inr (id1, tok1), w1)"
      and "upload_file id1 tok1 f1 ''image/jpeg'' w1 = (Inr r1, w2)"
      and "get_upload_files_permit ''image'' 1 w2 = (Inr (id2, tok2), w3)"
      and "upload_file id2 tok2 f2 ''image/jpeg'' w3 = (Inl e, w4)"
  shows "create_image_note title desc [f1, f2, f3] post_time ats topics is_private w = (Inl e, w4)
       \<and> (\<exists>evs. trace w4 = trace w @ evs \<and> set (methods evs) \<subseteq> {''GET'', ''PUT''}
                \<and> length (methods evs) \<le> 4)"
proof -
  have res: "create_image_note title desc [f1, f2, f3] post_time ats topics is_private w = (Inl e, w4)"
    using assms by (simp add: create_image_note_def)
  from permit_methods [of "''image''" 1 w] assms(1) obtain e1 where
    e1: "trace w1 = trace w @ e1" "set (methods e1) \<subseteq> {''GET''}"
    "length (methods e1) \<le> 1" by auto
  from upload_methods [of id1 tok1 f1 "''image/jpeg''" w1] assms(2) obtain e2 where
    e2: "trace w2 = trace w1 @ e2" "set (methods e2) \<subseteq> {''PUT''}"
    "length (methods e2) \<le> 1" by auto
  from permit_methods [of "''image''" 1 w2] assms(3) obtain e3 where
    e3: "trace w3 = trace w2 @ e3" "set (methods e3) \<subseteq> {''GET''}"
    "length (methods e3) \<le> 1" by auto
  from upload_methods [of id2 tok2 f2 "''image/jpeg''" w3] assms(4) obtain e4 where
    e4: "trace w4 = trace w3 @ e4" "set (methods e4) \<subseteq> {''PUT''}"
    "length (methods e4) \<le> 1" by auto
  have "trace w4 = trace w @ (e1 @ e2 @ e3 @ e4)" using e1 e2 e3 e4 by simp
  moreover have "set (methods (e1 @ e2 @ e3 @ e4)) \<subseteq> {''GET'', ''PUT''}"
    using e1 e2 e3 e4 by (auto simp: methods_append)
  moreover have "length (methods (e1 @ e2 @ e3 @ e4)) \<le> 4"
    using e1 e2 e3 e4 by (simp add: methods_append)
  ultimately show ?thesis using res by blast
qed

theorem C7_second_transfer_fails_witness:
  "fst (get_upload_files_permit ''image'' 1 world_C7) = Inr (PStr ''id1'', PStr ''tok1'')
   \<and> fst (create_image_note (PStr ''title'') (PStr ''desc'') [''a.jpg'', ''b.jpg'', ''c.jpg'']
            None None None False world_C7)
     = Inl (TransportError ''timeout'')
   \<and> methods (trace (snd (create_image_note (PStr ''title'') (PStr ''desc'')
            [''a.jpg'', ''b.jpg'', ''c.jpg''] None None None False world_C7)))
     = [''GET'', ''PUT'', ''GET'', ''PUT'']"
proof -
  let ?w1 = "snd (get_upload_files_permit ''image'' 1 world_C7)"
  let ?w2 = "snd (upload_file (PStr ''id1'') (PStr ''tok1'') ''a.jpg'' ''image/jpeg'' ?w1)"
  let ?w3 = "snd (get_upload_files_permit ''image'' 1 ?w2)"
  let ?w4 = "snd (upload_file (PStr ''id2'') (PStr ''tok2'') ''b.jpg'' ''image/jpeg'' ?w3)"
  have f1: "fst (get_upload_files_permit ''image'' 1 world_C7) = Inr (PStr ''id1'', PStr ''tok1'')"
    by (simp add: eval_defs)
  have f2: "fst (upload_file (PStr ''id1'') (PStr ''tok1'') ''a.jpg'' ''image/jpeg'' ?w1)
            = Inr (Resp empty_response)"
    by (simp add: eval_defs)
  have f3: "fst (get_upload_files_permit ''image'' 1 ?w2) = Inr (PStr ''id2'', PStr ''tok2'')"
    by (simp add: eval_defs)
  have f4: "fst (upload_file (PStr ''id2'') (PStr ''tok2'') ''b.jpg'' ''image/jpeg'' ?w3)
            = Inl (TransportError ''timeout'')"
    by (simp add: eval_defs)
  have h1: "get_upload_files_permit ''image'' 1 world_C7 = (Inr (PStr ''id1'', PStr ''tok1''), ?w1)"
    using f1 by (simp add: prod_eq_iff)
  have h2: "upload_file (PStr ''id1'') (PStr ''tok1'') ''a.jpg'' ''image/jpeg'' ?w1
            = (Inr (Resp empty_response), ?w2)"
    using f2 by (simp add: prod_eq_iff)
  have h3: "get_upload_files_permit ''image'' 1 ?w2 = (Inr (PStr ''id2'', PStr ''tok2''), ?w3)"
    using f3 by (simp add: prod_eq_iff)
  have h4: "upload_file (PStr ''id2'') (PStr ''tok2'') ''b.jpg'' ''image/jpeg'' ?w3
            = (Inl (TransportError ''timeout''), ?w4)"
    using f4 by (simp add: prod_eq_iff)
  have m: "methods (trace ?w4) = [''GET'', ''PUT'', ''GET'', ''PUT'']"
    by (simp add: eval_defs methods_def)
  from C7_second_transfer_fails [OF h1 h2 h3 h4, where ?f3.0 = "''c.jpg''" and title = "PStr ''title''"
      and desc = "PStr ''desc''" and post_time = None and ats = None and topics = None
      and is_private = False]
  have "create_image_note (PStr ''title'') (PStr ''desc'') [''a.jpg'', ''b.jpg'', ''c.jpg'']
            None None None False world_C7 = (Inl (TransportError ''timeout''), ?w4)"
    by blast
  with f1 m show ?thesis by simp
qed

section \<open>The publish payload\<close>

lemma digit_char_props:
  assumes "d < 10"
  shows "is_digit (digit_char d)" and "digit_val (digit_char d) = d"
    and "(digit_char d = CHR ''0'') = (d = 0)"
proof -
  from assms have "d = 0 \<or> d = 1 \<or> d = 2 \<or> d = 3 \<or> d = 4 \<or> d = 5 \<or> d = 6 \<or> d = 7 \<or> d = 8 \<or> d = 9"
    by arith
  then show "is_digit (digit_char d)" and "digit_val (digit_char d) = d"
    and "(digit_char d = CHR ''0'') = (d = 0)"
    by (auto simp: digit_char_def is_digit_def digit_val_def)
qed

lemma digits_nat_digits: "list_all is_digit (digits_nat n)"
proof (induction n rule: digits_nat.induct)
  case (1 n)
  show ?case
    by (subst digits_nat.simps) (use 1 in \<open>auto simp: digit_char_props\<close>)
qed

lemma digits_nat_nonempty: "digits_nat n \<noteq> []"
  by (subst digits_nat.simps) simp

lemma nat_of_digits_snoc: "nat_of_digits (ds @ [c]) = nat_of_digits ds * 10 + digit_val c"
  by (simp add: nat_of_digits_def)

lemma nat_of_digits_nat: "nat_of_digits (digits_nat n) = n"
proof (induction n rule: digits_nat.induct)
  case (1 n)
  show ?case
  proof (cases "n < 10")
    case True
    then show ?thesis
      by (subst digits_nat.simps) (simp add: nat_of_digits_def digit_char_props)
  next
    case False
    with 1 have "nat_of_digits (digits_nat (n div 10)) = n div 10" by simp
    with False show ?thesis
      by (subst digits_nat.simps) (simp add: nat_of_digits_snoc digit_char_props)
  qed
qed

lemma hd_digits_nat: "0 < n \<Longrightarrow> hd (digits_nat n) \<noteq> CHR ''0''"
proof (induction n rule: digits_nat.induct)
  case (1 n)
  show ?case
  proof (cases "n < 10")
    case True
    with 1(2) show ?thesis
      by (subst digits_nat.simps) (simp add: digit_char_props)
  next
    case False
    then have "0 < n div 10" by simp
    with 1(1) False have "hd (digits_nat (n div 10)) \<noteq> CHR ''0''" by simp
    with False show ?thesis
      by (subst digits_nat.simps) (simp add: digits_nat_nonempty)
  qed
qed

lemma digits_nat_long: "1 < length (digits_nat n) \<Longrightarrow> 0 < n"
  by (cases "n = 0") (simp_all add: digits_nat.simps [of 0])

lemma delimited_not_digit: "delimited r \<Longrightarrow> takeWhile is_digit r = [] \<and> dropWhile is_digit r = r"
  by (cases r) (auto simp: delimited_def is_digit_def)

lemma delimited_not_frac:
  "delimited r \<Longrightarrow> \<not> (case r of [] \<Rightarrow> False | c # cs \<Rightarrow> c = CHR ''.'' \<or> c = CHR ''e'' \<or> c = CHR ''E'')"
  by (cases r) (auto simp: delimited_def)

lemma span_digits:
  assumes "delimited r"
  shows "takeWhile is_digit (digits_nat n @ r) = digits_nat n"
    and "dropWhile is_digit (digits_nat n @ r) = r"
proof -
  have a: "\<forall>x \<in> set (digits_nat n). is_digit x"
    using digits_nat_digits [of n] by (simp add: list_all_iff)
  show "takeWhile is_digit (digits_nat n @ r) = digits_nat n"
    using a delimited_not_digit [OF assms] by (simp add: takeWhile_append2)
  show "dropWhile is_digit (digits_nat n @ r) = r"
    using a delimited_not_digit [OF assms] by (simp add: dropWhile_append2)
qed

lemma digits_nat_cons: "\<exists>c cs. digits_nat n = c # cs \<and> is_digit c"
  using digits_nat_digits [of n] digits_nat_nonempty [of n]
  by (cases "digits_nat n") auto

lemma parse_number_digits:
  assumes "delimited r"
  shows "parse_number (digits_nat n @ r) = Some (PInt (int n), r)"
proof -
  obtain c cs where e: "digits_nat n = c # cs" and d: "is_digit c"
    using digits_nat_cons by blast
  from d have m: "c \<noteq> CHR ''-''" by (auto simp: is_digit_def)
  have z: "\<not> (1 < length (digits_nat n) \<and> hd (digits_nat n) = CHR ''0'')"
    using digits_nat_long [of n] hd_digits_nat [of n] by blast
  have "parse_number (digits_nat n @ r) =
          (let neg = False; t = digits_nat n @ r; ds = takeWhile is_digit t; rest = dropWhile is_digit t
           in if ds = [] then None
              else if 1 < length ds \<and> hd ds = CHR ''0'' then None
              else if (case rest of [] \<Rightarrow> False | c # cs \<Rightarrow> c = CHR ''.'' \<or> c = CHR ''e'' \<or> c = CHR ''E'')
                   then None
              else Some (PInt (int (nat_of_digits ds)), rest))"
    using m by (simp add: parse_number_def e Let_def)
  also have "\<dots> = Some (PInt (int n), r)"
    using z delimited_not_frac [OF assms]
    by (simp add: Let_def span_digits [OF assms] digits_nat_nonempty nat_of_digits_nat)
  finally show ?thesis .
qed

lemma parse_number_neg_digits:
  assumes "delimited r"
  shows "parse_number (CHR ''-'' # digits_nat n @ r) = Some (PInt (- int n), r)"
proof -
  have z: "\<not> (1 < length (digits_nat n) \<and> hd (digits_nat n) = CHR ''0'')"
    using digits_nat_long [of n] hd_digits_nat [of n] by blast
  show ?thesis
    using z delimited_not_frac [OF assms]
    by (simp add: parse_number_def Let_def span_digits [OF assms] digits_nat_nonempty nat_of_digits_nat)
qed

lemma parse_number_str_int:
  assumes "delimited r"
  shows "parse_number (str_int i @ r) = Some (PInt i, r)"
proof (cases "i < 0")
  case True
  then show ?thesis
    using parse_number_neg_digits [OF assms, of "nat (- i)"] by (simp add: str_int_def)
next
  case False
  then show ?thesis
    using parse_number_digits [OF assms, of "nat i"] by (simp add: str_int_def)
qed

lemma str_int_head: "\<exists>c cs. str_int i = c # cs \<and> (c = CHR ''-'' \<or> is_digit c)"
  using digits_nat_cons [of "nat i"] by (auto simp: str_int_def)

lemma hex_val_hex_char: "d < 16 \<Longrightarrow> hex_val (hex_char d) = Some d"
proof -
  assume "d < 16"
  then have "d = 0 \<or> d = 1 \<or> d = 2 \<or> d = 3 \<or> d = 4 \<or> d = 5 \<or> d = 6 \<or> d = 7 \<or> d = 8 \<or> d = 9
      \<or> d = 10 \<or> d = 11 \<or> d = 12 \<or> d = 13 \<or> d = 14 \<or> d = 15"
    by arith
  then show ?thesis
    by (auto simp: hex_char_def hex_val_def)
qed

lemma hex4_val_control:
  assumes "n < 32"
  shows "hex4_val (hex_char 0) (hex_char 0) (hex_char (n div 16)) (hex_char (n mod 16)) = Some n"
proof -
  from assms have b: "n div 16 < 16" "n mod 16 < 16" by simp_all
  have c: "n div 16 * 16 + n mod 16 = n" by simp
  show ?thesis
    unfolding hex4_val_def using c
    by (simp add: hex_val_hex_char [OF b(1)] hex_val_hex_char [OF b(2)] hex_val_hex_char [of 0])
qed

lemma parse_chars_control:
  assumes "(of_char c :: nat) < 32"
  shows "parse_chars (u_escape (of_char c) @ t) = prepend [c] (parse_chars t)"
proof -
  have "utf8_encode (of_char c) = [c]"
    using assms by (simp add: utf8_encode_def)
  then show ?thesis
    using assms by (simp add: u_escape_def hex4_def hex4_val_control)
qed

lemma parse_chars_plain:
  assumes "c \<noteq> CHR 0x22" and "c \<noteq> CHR 0x5C" and "\<not> (of_char c :: nat) < 32"
  shows "parse_chars (c # t) = prepend [c] (parse_chars t)"
  using assms by simp

lemma parse_chars_short:
  assumes "unescape e = Some c" and "e \<noteq> CHR ''u''"
  shows "parse_chars (CHR 0x5C # e # t) = prepend [c] (parse_chars t)"
  using assms by simp

lemma parse_chars_escape: "parse_chars (escape_char c @ t) = prepend [c] (parse_chars t)"
proof -
  consider "c = CHR 0x22" | "c = CHR 0x5C" | "c = CHR 0x0A" | "c = CHR 0x0D" | "c = CHR 0x09"
    | "c = CHR 0x08" | "c = CHR 0x0C"
    | "c \<noteq> CHR 0x22" "c \<noteq> CHR 0x5C" "c \<noteq> CHR 0x0A" "c \<noteq> CHR 0x0D" "c \<noteq> CHR 0x09"
      "c \<noteq> CHR 0x08" "c \<noteq> CHR 0x0C"
    by blast
  then show ?thesis
  proof cases
    case 1
    have "escape_char c = [CHR 0x5C, CHR 0x22]" by (simp add: escape_char_def 1)
    then show ?thesis
      using parse_chars_short [of "CHR 0x22" c t] by (simp add: unescape_def 1)
  next
    case 2
    have "escape_char c = [CHR 0x5C, CHR 0x5C]" by (simp add: escape_char_def 2)
    then show ?thesis
      using parse_chars_short [of "CHR 0x5C" c t] by (simp add: unescape_def 2)
  next
    case 3
    have "escape_char c = [CHR 0x5C, CHR ''n'']" by (simp add: escape_char_def 3)
    then show ?thesis
      using parse_chars_short [of "CHR ''n''" c t] by (simp add: unescape_def 3)
  next
    case 4
    have "escape_char c = [CHR 0x5C, CHR ''r'']" by (simp add: escape_char_def 4)
    then show ?thesis
      using parse_chars_short [of "CHR ''r''" c t] by (simp add: unescape_def 4)
  next
    case 5
    have "escape_char c = [CHR 0x5C, CHR ''t'']" by (simp add: escape_char_def 5)
    then show ?thesis
      using parse_chars_short [of "CHR ''t''" c t] by (simp add: unescape_def 5)
  next
    case 6
    have "escape_char c = [CHR 0x5C, CHR ''b'']" by (simp add: escape_char_def 6)
    then show ?thesis
      using parse_chars_short [of "CHR ''b''" c t] by (simp add: unescape_def 6)
  next
    case 7
    have "escape_char c = [CHR 0x5C, CHR ''f'']" by (simp add: escape_char_def 7)
    then show ?thesis
      using parse_chars_short [of "CHR ''f''" c t] by (simp add: unescape_def 7)
  next
    case 8
    show ?thesis
    proof (cases "(of_char c :: nat) < 32")
      case True
      with 8 have "escape_char c = u_escape (of_char c)" by (simp add: escape_char_def)
      then show ?thesis using parse_chars_control [OF True] by simp
    next
      case False
      with 8 have "escape_char c = [c]" by (simp add: escape_char_def)
      then show ?thesis using parse_chars_plain [OF 8(1) 8(2) False] by simp
    qed
  qed
qed

lemma parse_chars_encode:
  "parse_chars (concat (map escape_char s) @ CHR 0x22 # t) = Some (s, t)"
  by (induction s) (simp_all add: parse_chars_escape prepend_def)

lemma encode_basestring_plain:
  "encode_basestring False s @ t = CHR 0x22 # (concat (map escape_char s) @ CHR 0x22 # t)"
  by (simp add: encode_basestring_def)

lemma skip_ws_head: "\<not> is_ws c \<Longrightarrow> skip_ws (c # cs) = c # cs"
  by (simp add: skip_ws_def)

lemma dict_set_fresh: "k \<notin> fst ` set xs \<Longrightarrow> dict_set xs k v = xs @ [(k, v)]"
  by (induction xs) auto

lemma dict_update_distinct:
  "distinct (map fst (xs @ kvs)) \<Longrightarrow> dict_update xs kvs = xs @ kvs"
proof (induction kvs arbitrary: xs)
  case Nil
  then show ?case by (simp add: dict_update_def)
next
  case (Cons kv kvs)
  obtain k v where kv: "kv = (k, v)" by (cases kv)
  from Cons.prems have f: "k \<notin> fst ` set xs" by (auto simp: kv)
  from Cons.prems have d: "distinct (map fst ((xs @ [(k, v)]) @ kvs))" by (auto simp: kv)
  have "dict_update xs (kv # kvs) = dict_update (dict_set xs k v) kvs"
    by (simp add: dict_update_def kv)
  also have "\<dots> = (xs @ [(k, v)]) @ kvs"
    using Cons.IH [OF d] by (simp add: dict_set_fresh [OF f])
  finally show ?case by (simp add: kv)
qed

lemma json_dumps_head:
  "\<exists>c cs. json_dumps ea v = c # cs \<and> \<not> is_ws c \<and> c \<noteq> CHR '']'' \<and> c \<noteq> CHR ''}''"
proof (cases v)
  case (PInt i)
  then show ?thesis
    using str_int_head [of i] by (auto simp: is_ws_def is_digit_def)
next
  case (PBool b)
  then show ?thesis by (cases b) (simp_all add: is_ws_def)
qed (simp_all add: is_ws_def encode_basestring_def)

lemma dumps_items_head:
  assumes "xs \<noteq> []"
  shows "\<exists>c cs. dumps_items ea xs = c # cs \<and> \<not> is_ws c \<and> c \<noteq> CHR '']''"
proof -
  from assms obtain x ys where xs: "xs = x # ys" by (cases xs) auto
  obtain c cs where h: "json_dumps ea x = c # cs" "\<not> is_ws c" "c \<noteq> CHR '']''"
    using json_dumps_head [of ea x] by blast
  show ?thesis
    using h by (cases ys) (simp_all add: xs)
qed

lemma dumps_members_head:
  assumes "kvs \<noteq> []"
  shows "\<exists>cs. dumps_members False kvs = CHR 0x22 # cs"
proof -
  from assms obtain k v ys where kvs: "kvs = (k, v) # ys" by (cases kvs) auto
  show ?thesis
    by (cases ys) (simp_all add: kvs encode_basestring_def)
qed

lemma parse_elements_items:
  assumes ih: "\<And>x m r. x \<in> set xs \<Longrightarrow> distinct_keys x \<Longrightarrow> length (json_dumps False x) \<le> m
                 \<Longrightarrow> delimited r \<Longrightarrow> parse_value m (json_dumps False x @ r) = Some (x, r)"
    and ne: "xs \<noteq> []"
    and dk: "\<forall>x \<in> set xs. distinct_keys x"
    and len: "length (dumps_items False xs) < n"
  shows "parse_elements n (dumps_items False xs @ CHR '']'' # rest) = Some (xs, rest)"
  using ih ne dk len
proof (induction xs arbitrary: n)
  case Nil
  then show ?case by simp
next
  case (Cons x xs)
  obtain m where n: "n = Suc m" using Cons.prems(4) by (cases n) auto
  have dx: "distinct_keys x" using Cons.prems(3) by simp
  consider (single) "xs = []" | (more) y ys where "xs = y # ys" by (cases xs) auto
  then show ?case
  proof cases
    case single
    have d: "delimited (CHR '']'' # rest)" by (simp add: delimited_def)
    have l: "length (json_dumps False x) \<le> m" using Cons.prems(4) by (simp add: n single)
    have "parse_value m (json_dumps False x @ CHR '']'' # rest) = Some (x, CHR '']'' # rest)"
      using Cons.prems(1) [OF _ dx l d] by simp
    then show ?thesis by (simp add: n single skip_ws_head is_ws_def)
  next
    case more
    let ?t = "dumps_items False (y # ys) @ CHR '']'' # rest"
    have d: "delimited (CHR '','' # ?t)" by (simp add: delimited_def)
    have l: "length (json_dumps False x) \<le> m" using Cons.prems(4) by (simp add: n more)
    have l2: "length (dumps_items False xs) < m" using Cons.prems(4) by (simp add: n more)
    have pv: "parse_value m (json_dumps False x @ CHR '','' # ?t) = Some (x, CHR '','' # ?t)"
      using Cons.prems(1) [OF _ dx l d] by simp
    have pe: "parse_elements m (dumps_items False xs @ CHR '']'' # rest) = Some (xs, rest)"
    proof (rule Cons.IH)
      show "xs \<noteq> []" by (simp add: more)
      show "\<forall>x \<in> set xs. distinct_keys x" using Cons.prems(3) by simp
      show "length (dumps_items False xs) < m" by (rule l2)
      show "\<And>x m r. x \<in> set xs \<Longrightarrow> distinct_keys x \<Longrightarrow> length (json_dumps False x) \<le> m
              \<Longrightarrow> delimited r \<Longrightarrow> parse_value m (json_dumps False x @ r) = Some (x, r)"
        using Cons.prems(1) by simp
    qed
    show ?thesis
      using pv pe by (simp add: n more skip_ws_head is_ws_def)
  qed
qed

lemma parse_members_items:
  assumes ih: "\<And>k v m r. (k, v) \<in> set kvs \<Longrightarrow> distinct_keys v \<Longrightarrow> length (json_dumps False v) \<le> m
                 \<Longrightarrow> delimited r \<Longrightarrow> parse_value m (json_dumps False v @ r) = Some (v, r)"
    and ne: "kvs \<noteq> []"
    and dk: "\<forall>kv \<in> set kvs. distinct_keys (snd kv)"
    and len: "length (dumps_members False kvs) < n"
  shows "parse_members n (dumps_members False kvs @ CHR ''}'' # rest) = Some (kvs, rest)"
  using ih ne dk len
proof (induction kvs arbitrary: n)
  case Nil
  then show ?case by simp
next
  case (Cons kv kvs)
  obtain k v where kv: "kv = (k, v)" by (cases kv)
  obtain m where n: "n = Suc m" using Cons.prems(4) by (cases n) auto
  have dv: "distinct_keys v" using Cons.prems(3) by (simp add: kv)
  have mem: "(k, v) \<in> set (kv # kvs)" by (simp add: kv)
  have q: "\<not> is_ws (CHR 0x22)" "\<not> is_ws (CHR '':'')" "\<not> is_ws (CHR '','')" "\<not> is_ws (CHR ''}'')"
    by (simp_all add: is_ws_def)
  consider (single) "kvs = []" | (more) y ys where "kvs = y # ys" by (cases kvs) auto
  then show ?case
  proof cases
    case single
    have d: "delimited (CHR ''}'' # rest)" by (simp add: delimited_def)
    have l: "length (json_dumps False v) \<le> m" using Cons.prems(4) by (simp add: n single kv)
    have pv: "parse_value m (json_dumps False v @ CHR ''}'' # rest) = Some (v, CHR ''}'' # rest)"
      using Cons.prems(1) [OF mem dv l d] by simp
    have e: "dumps_members False (kv # kvs) @ CHR ''}'' # rest =
               CHR 0x22 # (concat (map escape_char k) @ CHR 0x22 # CHR '':'' # json_dumps False v @ CHR ''}'' # rest)"
      by (simp add: single kv encode_basestring_def)
    show ?thesis
      unfolding e n by (simp add: skip_ws_head q parse_chars_encode pv single kv)
  next
    case more
    let ?t = "dumps_members False kvs @ CHR ''}'' # rest"
    have d: "delimited (CHR '','' # ?t)" by (simp add: delimited_def)
    have l: "length (json_dumps False v) \<le> m" using Cons.prems(4) by (simp add: n more kv)
    have l2: "length (dumps_members False kvs) < m" using Cons.prems(4) by (simp add: n more kv)
    have pv: "parse_value m (json_dumps False v @ CHR '','' # ?t) = Some (v, CHR '','' # ?t)"
      using Cons.prems(1) [OF mem dv l d] by simp
    have pm: "parse_members m ?t = Some (kvs, rest)"
    proof (rule Cons.IH)
      show "kvs \<noteq> []" by (simp add: more)
      show "\<forall>kv \<in> set kvs. distinct_keys (snd kv)" using Cons.prems(3) by simp
      show "length (dumps_members False kvs) < m" by (rule l2)
      fix k' v' m' r'
      assume a: "(k', v') \<in> set kvs" "distinct_keys v'" "length (json_dumps False v') \<le> m'" "delimited r'"
      from a(1) have "(k', v') \<in> set (kv # kvs)" by simp
      from Cons.prems(1) [OF this a(2) a(3) a(4)]
      show "parse_value m' (json_dumps False v' @ r') = Some (v', r')" .
    qed
    have e: "dumps_members False (kv # kvs) @ CHR ''}'' # rest =
               CHR 0x22 # (concat (map escape_char k) @ CHR 0x22 # CHR '':'' # json_dumps False v @ CHR '','' # ?t)"
      by (simp add: more kv encode_basestring_def)
    show ?thesis
      unfolding e n by (simp add: skip_ws_head q parse_chars_encode pv pm kv)
  qed
qed

lemma parse_value_dumps:
  "distinct_keys v \<Longrightarrow> length (json_dumps False v) \<le> n \<Longrightarrow> delimited rest
     \<Longrightarrow> parse_value n (json_dumps False v @ rest) = Some (v, rest)"
proof (induction v arbitrary: n rest)
  case PNone
  then obtain m where n: "n = Suc m" by (cases n) auto
  show ?case by (simp add: n skip_ws_head is_ws_def match_prefix_def)
next
  case (PBool b)
  then obtain m where n: "n = Suc m" by (cases n) (auto split: if_splits)
  show ?case by (cases b) (simp_all add: n skip_ws_head is_ws_def match_prefix_def)
next
  case (PInt i)
  obtain c cs where h: "str_int i = c # cs" "c = CHR ''-'' \<or> is_digit c"
    using str_int_head [of i] by blast
  from PInt h obtain m where n: "n = Suc m" by (cases n) auto
  from h(2) have w: "\<not> is_ws c" by (auto simp: is_ws_def is_digit_def)
  from h(2) have c: "c \<noteq> CHR ''n''" "c \<noteq> CHR ''t''" "c \<noteq> CHR ''f''" "c \<noteq> CHR 0x22"
    "c \<noteq> CHR ''[''" "c \<noteq> CHR ''{''"
    by (auto simp: is_digit_def)
  have "parse_value (Suc m) ((c # cs) @ rest) = parse_number ((c # cs) @ rest)"
    using c by (simp add: skip_ws_head [OF w])
  then show ?case
    using parse_number_str_int [OF PInt(3), of i] by (simp add: n h(1))
next
  case (PStr s)
  then obtain m where n: "n = Suc m" by (cases n) (auto simp: encode_basestring_def)
  have e: "json_dumps False (PStr s) @ rest = CHR 0x22 # (concat (map escape_char s) @ CHR 0x22 # rest)"
    by (simp add: encode_basestring_def)
  show ?case
    unfolding e n by (simp add: skip_ws_head is_ws_def parse_chars_encode)
next
  case (PList xs)
  from PList(3) obtain m where n: "n = Suc m" by (cases n) auto
  show ?case
  proof (cases "xs = []")
    case True
    then show ?thesis by (simp add: n skip_ws_head is_ws_def)
  next
    case False
    obtain c cs where h: "dumps_items False xs = c # cs" "\<not> is_ws c" "c \<noteq> CHR '']''"
      using dumps_items_head [OF False, of False] by blast
    have l: "length (dumps_items False xs) < m" using PList(3) by (simp add: n)
    have pe: "parse_elements m (dumps_items False xs @ CHR '']'' # rest) = Some (xs, rest)"
    proof (rule parse_elements_items [OF _ False _ l])
      show "\<forall>x \<in> set xs. distinct_keys x" using PList(2) by simp
      show "\<And>x m r. x \<in> set xs \<Longrightarrow> distinct_keys x \<Longrightarrow> length (json_dumps False x) \<le> m
              \<Longrightarrow> delimited r \<Longrightarrow> parse_value m (json_dumps False x @ r) = Some (x, r)"
        using PList(1) by simp
    qed
    have e: "json_dumps False (PList xs) @ rest = CHR ''['' # (c # cs) @ CHR '']'' # rest"
      by (simp add: h(1))
    have "parse_value (Suc m) (CHR ''['' # (c # cs) @ CHR '']'' # rest) =
            map_option (apfst PList) (parse_elements m ((c # cs) @ CHR '']'' # rest))"
      using h(2,3) by (simp add: skip_ws_head is_ws_def)
    then show ?thesis
      unfolding e n using pe by (simp add: h(1))
  qed
next
  case (PDict kvs)
  from PDict(3) obtain m where n: "n = Suc m" by (cases n) auto
  show ?case
  proof (cases "kvs = []")
    case True
    then show ?thesis by (simp add: n skip_ws_head is_ws_def)
  next
    case False
    obtain cs where h: "dumps_members False kvs = CHR 0x22 # cs"
      using dumps_members_head [OF False] by blast
    have l: "length (dumps_members False kvs) < m" using PDict(3) by (simp add: n)
    have pm: "parse_members m (dumps_members False kvs @ CHR ''}'' # rest) = Some (kvs, rest)"
    proof (rule parse_members_items [OF _ False _ l])
      show "\<forall>kv \<in> set kvs. distinct_keys (snd kv)" using PDict(2) by simp
      show "\<And>k v m r. (k, v) \<in> set kvs \<Longrightarrow> distinct_keys v \<Longrightarrow> length (json_dumps False v) \<le> m
              \<Longrightarrow> delimited r \<Longrightarrow> parse_value m (json_dumps False v @ r) = Some (v, r)"
        using PDict(1) by force
    qed
    have u: "dict_update [] kvs = kvs"
      using dict_update_distinct [of "[]" kvs] PDict(2) by simp
    have e: "json_dumps False (PDict kvs) @ rest = CHR ''{'' # (CHR 0x22 # cs) @ CHR ''}'' # rest"
      by (simp add: h)
    have "parse_value (Suc m) (CHR ''{'' # (CHR 0x22 # cs) @ CHR ''}'' # rest) =
            map_option (apfst (\<lambda>kvs. PDict (dict_update [] kvs)))
              (parse_members m ((CHR 0x22 # cs) @ CHR ''}'' # rest))"
      by (simp add: skip_ws_head is_ws_def)
    then show ?thesis
      unfolding e n using pm u by (simp add: h)
  qed
qed

lemma json_loads_dumps:
  assumes "distinct_keys v"
  shows "json_loads (json_dumps False v) = Some v"
proof -
  have "parse_value (Suc (length (json_dumps False v))) (json_dumps False v @ []) = Some (v, [])"
    by (rule parse_value_dumps [OF assms]) (simp_all add: delimited_def)
  then show ?thesis by (simp add: json_loads_def skip_ws_def)
qed

lemma utf8_chars_ascii:
  "\<forall>c \<in> set s. (of_char c :: nat) < 127 \<Longrightarrow> utf8_chars s = map (\<lambda>c. [c]) s"
proof (induction s)
  case Nil
  then show ?case by simp
next
  case (Cons c cs)
  have "takeWhile is_cont cs = [] \<and> dropWhile is_cont cs = cs"
    using Cons.prems by (cases cs) (auto simp: is_cont_def)
  then show ?case using Cons by simp
qed

lemma escape_unit_ascii_single:
  "(of_char c :: nat) < 127 \<Longrightarrow> escape_unit_ascii [c] = escape_char c"
  by (simp add: escape_unit_ascii_def codepoint_def)

lemma encode_basestring_ascii:
  assumes "\<forall>c \<in> set s. (of_char c :: nat) < 127"
  shows "encode_basestring True s = encode_basestring False s"
proof -
  have "concat (map (escape_unit_ascii \<circ> (\<lambda>c. [c])) s) = concat (map escape_char s)"
    using assms by (induction s) (simp_all add: escape_unit_ascii_single)
  then show ?thesis
    by (simp add: encode_basestring_def utf8_chars_ascii [OF assms])
qed

lemma convert_post_time_cases:
  assumes "convert_post_time w post_time = Inr pt"
  shows "pt = PNone \<or> pt = PStr [] \<or> (\<exists>n. pt = PInt n)"
  using assms
  by (auto simp: convert_post_time_def bind_exn_def split: option.splits if_splits sum.splits)

lemma business_binds_keys:
  "encode_basestring True ''version'' = encode_basestring False ''version''"
  "encode_basestring True ''noteId'' = encode_basestring False ''noteId''"
  "encode_basestring True ''noteOrderBind'' = encode_basestring False ''noteOrderBind''"
  "encode_basestring True ''notePostTiming'' = encode_basestring False ''notePostTiming''"
  "encode_basestring True ''postTime'' = encode_basestring False ''postTime''"
  "encode_basestring True ''noteCollectionBind'' = encode_basestring False ''noteCollectionBind''"
  "encode_basestring True ''id'' = encode_basestring False ''id''"
  "encode_basestring True [] = encode_basestring False []"
  by (rule encode_basestring_ascii, simp)+

lemma business_binds_dumps:
  assumes "pt = PNone \<or> pt = PStr [] \<or> (\<exists>n. pt = PInt n)"
  shows "json_dumps True (business_binds pt) = json_dumps False (business_binds pt)"
    and "distinct_keys (business_binds pt)"
  using assms by (auto simp: business_binds_def business_binds_keys)

lemma note_data_business_binds:
  "bind_exn (getitem (note_data title desc note_type ats topics image_info video_info pt is_private)
               (PStr ''common''))
     (\<lambda>common. getitem common (PStr ''business_binds''))
   = Inr (PStr (json_dumps True (business_binds pt)))"
  by (simp add: note_data_def bind_exn_def)

lemma note_data_distinct:
  assumes "distinct_keys title" and "distinct_keys desc" and "distinct_keys note_type"
    and "distinct_keys ats" and "distinct_keys topics" and "distinct_keys image_info"
    and "distinct_keys video_info"
  shows "distinct_keys (note_data title desc note_type ats topics image_info video_info pt is_private)"
  using assms by (simp add: note_data_def)

lemma create_note_payload:
  assumes "convert_post_time w post_time = Inr pt" and "sign_oracle w (sign_n w) = Inr sg"
  shows "last_payload (trace (snd (create_note title desc note_type ats topics image_info video_info
            post_time is_private w)))
         = Some (json_dumps False
                   (note_data title desc note_type ats topics image_info video_info pt is_private))"
  using assms
  by (simp add: create_note_def post_def pre_headers_def Let_def request_def last_payload_def
      split: sum.splits)

text \<open>
  C8: when \<^verbatim>\<open>create_note\<close> gets past the conversion of the post time and the signing, the last
  event is the POST of its payload, the compact serialisation of \<^verbatim>\<open>data\<close>. Decoding that
  body gives \<^verbatim>\<open>data\<close> back; its entry \<^verbatim>\<open>business_binds\<close> under \<^verbatim>\<open>common\<close> is a string, the
  serialisation of the dictionary \<^verbatim>\<open>business_binds\<close>; and decoding that string gives the
  dictionary back, with the converted post time in it. The arguments are any values that
  stand for Python objects (dictionaries with distinct keys).
\<close>

theorem C8_business_binds_round_trip:
  assumes "distinct_keys title" and "distinct_keys desc" and "distinct_keys note_type"
    and "distinct_keys ats" and "distinct_keys topics" and "distinct_keys image_info"
    and "distinct_keys video_info"
    and "convert_post_time w post_time = Inr pt"
    and "sign_oracle w (sign_n w) = Inr sg"
  shows "last_payload (trace (snd (create_note title desc note_type ats topics image_info
            video_info post_time is_private w)))
           = Some (json_dumps False
                     (note_data title desc note_type ats topics image_info video_info pt is_private))
       \<and> json_loads (json_dumps False
             (note_data title desc note_type ats topics image_info video_info pt is_private))
           = Some (note_data title desc note_type ats topics image_info video_info pt is_private)
       \<and> bind_exn (getitem (note_data title desc note_type ats topics image_info video_info pt
                               is_private) (PStr ''common''))
            (\<lambda>common. getitem common (PStr ''business_binds''))
           = Inr (PStr (json_dumps True (business_binds pt)))
       \<and> json_loads (json_dumps True (business_binds pt)) = Some (business_binds pt)
       \<and> decode_business_binds (json_dumps False
             (note_data title desc note_type ats topics image_info video_info pt is_private))
           = Some (business_binds pt)"
proof -
  let ?d = "note_data title desc note_type ats topics image_info video_info pt is_private"
  have p: "last_payload (trace (snd (create_note title desc note_type ats topics image_info
              video_info post_time is_private w))) = Some (json_dumps False ?d)"
    by (rule create_note_payload [OF assms(8) assms(9)])
  have o: "json_loads (json_dumps False ?d) = Some ?d"
    by (rule json_loads_dumps [OF note_data_distinct [OF assms(1-7)]])
  note c = convert_post_time_cases [OF assms(8)]
  have i: "json_loads (json_dumps True (business_binds pt)) = Some (business_binds pt)"
    using json_loads_dumps [OF business_binds_dumps(2) [OF c]]
    by (simp add: business_binds_dumps(1) [OF c])
  note g = note_data_business_binds [of title desc note_type ats topics image_info video_info pt
      is_private]
  have "decode_business_binds (json_dumps False ?d) = Some (business_binds pt)"
    using g i by (simp add: decode_business_binds_def o)
  with p o g i show ?thesis by simp
qed

theorem C8_business_binds_round_trip_witness:
  "distinct_keys (PStr ''t'') \<and> distinct_keys (PStr ''d'') \<and> distinct_keys (PStr ''normal'')
   \<and> distinct_keys (PList []) \<and> distinct_keys (PList [PDict [(''name'', PStr ''tag'')]])
   \<and> distinct_keys PNone
   \<and> convert_post_time (world_clock 1697000000) (Some ''2023-10-11 12:11:11'') = Inr (PInt 1697000000000)
   \<and> sign_oracle (world_clock 1697000000) (sign_n (world_clock 1697000000)) = Inr signs0
   \<and> last_payload (trace (snd (create_note (PStr ''t'') (PStr ''d'') (PStr ''normal'') (PList [])
          (PList [PDict [(''name'', PStr ''tag'')]]) PNone PNone (Some ''2023-10-11 12:11:11'') False
          (world_clock 1697000000))))
       = Some (json_dumps False (note_data (PStr ''t'') (PStr ''d'') (PStr ''normal'') (PList [])
                 (PList [PDict [(''name'', PStr ''tag'')]]) PNone PNone (PInt 1697000000000) False))
   \<and> decode_business_binds (json_dumps False (note_data (PStr ''t'') (PStr ''d'') (PStr ''normal'')
          (PList []) (PList [PDict [(''name'', PStr ''tag'')]]) PNone PNone (PInt 1697000000000) False))
       = Some (business_binds (PInt 1697000000000))"
proof -
  let ?w = "world_clock 1697000000"
  have c: "convert_post_time ?w (Some ''2023-10-11 12:11:11'') = Inr (PInt 1697000000000)"
    by (simp add: convert_post_time_def world_clock_def world0_def bind_exn_def)
  have s: "sign_oracle ?w (sign_n ?w) = Inr signs0"
    by (simp add: world_clock_def world0_def)
  have d: "distinct_keys (PStr ''t'')" "distinct_keys (PStr ''d'')" "distinct_keys (PStr ''normal'')"
    "distinct_keys (PList [])" "distinct_keys (PList [PDict [(''name'', PStr ''tag'')]])"
    "distinct_keys PNone" "distinct_keys PNone"
    by simp_all
  from C8_business_binds_round_trip [OF d c s, where is_private = False] c s d
  show ?thesis by blast
qed
end
